theory Spec2Isabelle
  imports Main "HOL-Library.Word"
begin

section \<open>Insertion-ordered maps\<close>

text \<open>
  The caches of \<^verbatim>\<open>lib/parse-cache.js\<close> and \<^verbatim>\<open>lib/content-type-cache.js\<close> keep their
  entries in a JavaScript \<^verbatim>\<open>Map\<close>. A \<^verbatim>\<open>Map\<close> iterates its keys in the order of their
  insertion: \<^verbatim>\<open>set\<close> on a key already present replaces the value and keeps the key's
  position, \<^verbatim>\<open>set\<close> on a new key appends it, \<^verbatim>\<open>delete\<close> removes the key. The order
  decides which entry \<^verbatim>\<open>ParseCache.set\<close> evicts, so a \<^verbatim>\<open>Map\<close> is an association list
  in iteration order, with distinct keys.
\<close>

type_synonym ('k, 'v) jsmap = "('k \<times> 'v) list"

fun jm_get :: "('k, 'v) jsmap \<Rightarrow> 'k \<Rightarrow> 'v option" where
  "jm_get [] k = None"
| "jm_get ((k', v') # m) k = (if k' = k then Some v' else jm_get m k)"

fun jm_set :: "'k \<Rightarrow> 'v \<Rightarrow> ('k, 'v) jsmap \<Rightarrow> ('k, 'v) jsmap" where
  "jm_set k v [] = [(k, v)]"
| "jm_set k v ((k', v') # m) = (if k' = k then (k, v) # m else (k', v') # jm_set k v m)"

fun jm_delete :: "'k \<Rightarrow> ('k, 'v) jsmap \<Rightarrow> ('k, 'v) jsmap" where
  "jm_delete k [] = []"
| "jm_delete k ((k', v') # m) = (if k' = k then jm_delete k m else (k', v') # jm_delete k m)"

definition jm_size :: "('k, 'v) jsmap \<Rightarrow> nat" where
  "jm_size m = length m"

definition jm_keys :: "('k, 'v) jsmap \<Rightarrow> 'k list" where
  "jm_keys m = map fst m"

definition jm_wf :: "('k, 'v) jsmap \<Rightarrow> bool" where
  "jm_wf m = distinct (jm_keys m)"

section \<open>The body parse cache (lib/parse-cache.js)\<close>

definition DEFAULT_TTL :: int where
  "DEFAULT_TTL = 60000"

definition MAX_CACHE_SIZE :: int where
  "MAX_CACHE_SIZE = 100"

definition MAX_CACHEABLE_SIZE :: nat where
  "MAX_CACHEABLE_SIZE = 10 * 1024"

text \<open>
  A body is a string or a \<^verbatim>\<open>Buffer\<close> of bytes. \<^verbatim>\<open>body.length\<close> counts the code units
  of a string and the bytes of a buffer. The two functions of the platform that
  \<^verbatim>\<open>_generateKey\<close> calls, \<^verbatim>\<open>Buffer.prototype.toString\<close> and the SHA-256 digest of
  \<^verbatim>\<open>node:crypto\<close> printed in hexadecimal, are parameters of the model.
\<close>

datatype body = Str string | Buf "8 word list"

record platform =
  buf_toString :: "8 word list \<Rightarrow> string"
  sha256_hex :: "string \<Rightarrow> string"

fun body_length :: "body \<Rightarrow> nat" where
  "body_length (Str s) = length s"
| "body_length (Buf bs) = length bs"

fun body_text :: "platform \<Rightarrow> body \<Rightarrow> string" where
  "body_text P (Str s) = s"
| "body_text P (Buf bs) = buf_toString P bs"

definition generateKey :: "platform \<Rightarrow> body \<Rightarrow> string" where
  "generateKey P b =
     (if body_length b < 100 then body_text P b
      else sha256_hex P (body_text P b))"

text \<open>
  The clock \<^verbatim>\<open>Date.now()\<close> is an argument of every operation that reads it. Times,
  the TTL and the maximum size are the integers the constructor is given; the counters
  start at zero and only grow.
\<close>

record 'v entry =
  entry_value :: 'v
  expiresAt :: int

record 'v ParseCache =
  pc_cache :: "(string, 'v entry) jsmap"
  pc_ttl :: int
  pc_maxSize :: int
  pc_hits :: nat
  pc_misses :: nat
  pc_evictions :: nat

definition new_ParseCache :: "int \<Rightarrow> int \<Rightarrow> 'v ParseCache" where
  "new_ParseCache ttl maxSize =
     \<lparr>pc_cache = [], pc_ttl = ttl, pc_maxSize = maxSize,
      pc_hits = 0, pc_misses = 0, pc_evictions = 0\<rparr>"

text \<open>\<^verbatim>\<open>get\<close> returns the stored value, or \<^verbatim>\<open>null\<close> (here \<open>None\<close>) for not-found.\<close>

definition pc_get :: "platform \<Rightarrow> int \<Rightarrow> body \<Rightarrow> 'v ParseCache \<Rightarrow> 'v option \<times> 'v ParseCache" where
  "pc_get P now b s =
     (if body_length b > MAX_CACHEABLE_SIZE then (None, s)
      else
        let key = generateKey P b in
        case jm_get (pc_cache s) key of
          None \<Rightarrow> (None, s\<lparr>pc_misses := pc_misses s + 1\<rparr>)
        | Some e \<Rightarrow>
            if now > expiresAt e
            then (None, s\<lparr>pc_cache := jm_delete key (pc_cache s),
                          pc_misses := pc_misses s + 1\<rparr>)
            else (Some (entry_value e), s\<lparr>pc_hits := pc_hits s + 1\<rparr>))"

text \<open>
  The eviction step of \<^verbatim>\<open>set\<close>: \<^verbatim>\<open>this.cache.keys().next().value\<close> is the first key in
  iteration order, or \<^verbatim>\<open>undefined\<close> when the map is empty, and deleting \<^verbatim>\<open>undefined\<close>
  removes nothing.
\<close>

definition evict_first :: "('k, 'v) jsmap \<Rightarrow> ('k, 'v) jsmap" where
  "evict_first m = (case m of [] \<Rightarrow> [] | (firstKey, _) # _ \<Rightarrow> jm_delete firstKey m)"

definition pc_set :: "platform \<Rightarrow> int \<Rightarrow> body \<Rightarrow> 'v \<Rightarrow> 'v ParseCache \<Rightarrow> 'v ParseCache" where
  "pc_set P now b v s =
     (if body_length b > MAX_CACHEABLE_SIZE then s
      else
        let s1 = (if int (jm_size (pc_cache s)) \<ge> pc_maxSize s
                  then s\<lparr>pc_cache := evict_first (pc_cache s),
                         pc_evictions := pc_evictions s + 1\<rparr>
                  else s);
            key = generateKey P b
        in s1\<lparr>pc_cache :=
                jm_set key \<lparr>entry_value = v, expiresAt = now + pc_ttl s1\<rparr> (pc_cache s1)\<rparr>)"

text \<open>
  \<^verbatim>\<open>stats\<close> reads the counters. Its last field, the hit rate, is a floating-point
  quotient of the hit and miss counters shown here and is left out. The pool and the
  content-type cache report the first three fields, the parse cache the evictions too.
\<close>

record stats =
  st_size :: nat
  st_hits :: nat
  st_misses :: nat

record cache_stats = stats +
  st_evictions :: nat

definition pc_stats :: "'v ParseCache \<Rightarrow> cache_stats" where
  "pc_stats s =
     \<lparr>st_size = jm_size (pc_cache s), st_hits = pc_hits s,
      st_misses = pc_misses s, st_evictions = pc_evictions s\<rparr>"

definition pc_clear :: "'v ParseCache \<Rightarrow> 'v ParseCache" where
  "pc_clear s = s\<lparr>pc_cache := []\<rparr>"

text \<open>
  \<^verbatim>\<open>cleanup\<close> walks the entries in iteration order, deletes each expired one from the
  map as it is met and counts it.
\<close>

fun cleanup_loop ::
  "int \<Rightarrow> (string, 'v entry) jsmap \<Rightarrow> (string, 'v entry) jsmap \<Rightarrow> nat
     \<Rightarrow> (string, 'v entry) jsmap \<times> nat" where
  "cleanup_loop now [] m cleaned = (m, cleaned)"
| "cleanup_loop now ((key, e) # rest) m cleaned =
     (if now > expiresAt e
      then cleanup_loop now rest (jm_delete key m) (cleaned + 1)
      else cleanup_loop now rest m cleaned)"

definition pc_cleanup :: "int \<Rightarrow> 'v ParseCache \<Rightarrow> nat \<times> 'v ParseCache" where
  "pc_cleanup now s =
     (let (m, cleaned) = cleanup_loop now (pc_cache s) (pc_cache s) 0
      in (cleaned, s\<lparr>pc_cache := m\<rparr>))"

text \<open>Sequences of operations on one cache, for the properties that hold at every moment.\<close>

datatype 'v pc_op = Get int body | Set int body 'v | Cleanup int | Clear

fun pc_step :: "platform \<Rightarrow> 'v pc_op \<Rightarrow> 'v ParseCache \<Rightarrow> 'v ParseCache" where
  "pc_step P (Get now b) s = snd (pc_get P now b s)"
| "pc_step P (Set now b v) s = pc_set P now b v s"
| "pc_step P (Cleanup now) s = snd (pc_cleanup now s)"
| "pc_step P Clear s = pc_clear s"

fun pc_run :: "platform \<Rightarrow> 'v pc_op list \<Rightarrow> 'v ParseCache \<Rightarrow> 'v ParseCache" where
  "pc_run P [] s = s"
| "pc_run P (x # xs) s = pc_run P xs (pc_step P x s)"

definition insert_all ::
  "platform \<Rightarrow> (body \<Rightarrow> int) \<Rightarrow> (body \<Rightarrow> 'v) \<Rightarrow> body list \<Rightarrow> 'v ParseCache \<Rightarrow> 'v ParseCache" where
  "insert_all P clock val bs s = pc_run P (map (\<lambda>b. Set (clock b) b (val b)) bs) s"

text \<open>
  The invariant of a cache configured with maximum \<open>M\<close>: distinct keys, the configured
  maximum unchanged, and at most \<open>M\<close> entries.
\<close>

definition pc_inv :: "int \<Rightarrow> 'v ParseCache \<Rightarrow> bool" where
  "pc_inv M s = (jm_wf (pc_cache s) \<and> pc_maxSize s = M \<and> int (jm_size (pc_cache s)) \<le> M)"

section \<open>The buffer pool (lib/buffer-pool.js)\<close>

definition POOL_SIZE :: nat where
  "POOL_SIZE = 8 * 1024"

definition MAX_POOL_ENTRIES :: nat where
  "MAX_POOL_ENTRIES = 50"

text \<open>
  A \<^verbatim>\<open>Buffer\<close> is a view of a block of memory: the block, the offset of the view's
  first byte and the view's length. \<^verbatim>\<open>buf.slice\<close> makes a second view of the same
  block, and \<^verbatim>\<open>buffer.fill(0)\<close> writes through the view into the block, so two views
  may share bytes. The memory is therefore explicit: a list of blocks, a block's
  index being its address.

  \<^verbatim>\<open>Buffer.allocUnsafe(n)\<close> throws a range error when \<open>n\<close> is negative or above the
  largest length the platform allocates, which is at most its
  \<^verbatim>\<open>buffer.constants.MAX_LENGTH\<close> and is the parameter \<open>L\<close>. Otherwise it makes a block
  of \<open>n\<close> bytes whose contents are not initialised: the parameter \<open>junk\<close> gives
  them. The pool only asks for blocks of at least \<^verbatim>\<open>POOL_SIZE\<close> bytes,
  which the platform never carves out of a shared slab. Sizes are integers.
\<close>

type_synonym byte = "8 word"

type_synonym memory = "byte list list"

record buffer =
  buf_block :: nat
  buf_offset :: nat
  buf_length :: nat

datatype error = ERR_OUT_OF_RANGE

definition valid_buffer :: "memory \<Rightarrow> buffer \<Rightarrow> bool" where
  "valid_buffer m b =
     (buf_block b < length m \<and> buf_offset b + buf_length b \<le> length (m ! buf_block b))"

definition buffer_bytes :: "memory \<Rightarrow> buffer \<Rightarrow> byte list" where
  "buffer_bytes m b = take (buf_length b) (drop (buf_offset b) (m ! buf_block b))"

definition allocUnsafe ::
  "int \<Rightarrow> (nat \<Rightarrow> byte) \<Rightarrow> int \<Rightarrow> memory \<Rightarrow> (error + buffer) \<times> memory" where
  "allocUnsafe L junk sz m =
     (if sz < 0 \<or> sz > L then (Inl ERR_OUT_OF_RANGE, m)
      else (Inr \<lparr>buf_block = length m, buf_offset = 0, buf_length = nat sz\<rparr>,
            m @ [map junk [0..<nat sz]]))"

definition fill_zero :: "buffer \<Rightarrow> memory \<Rightarrow> memory" where
  "fill_zero b m =
     (let d = m ! buf_block b
      in m[buf_block b :=
             take (buf_offset b) d @ replicate (buf_length b) 0
               @ drop (buf_offset b + buf_length b) d])"

text \<open>
  \<^verbatim>\<open>buf.slice(0, end)\<close>: a negative \<^verbatim>\<open>end\<close> counts from the end of the buffer, and the
  result is clamped to the buffer.
\<close>

definition slice0 :: "buffer \<Rightarrow> int \<Rightarrow> buffer" where
  "slice0 b end =
     (let len = int (buf_length b);
          e = (if end < 0 then max (len + end) 0 else min end len)
      in b\<lparr>buf_length := nat e\<rparr>)"

record BufferPool =
  bp_pool :: "buffer list"
  bp_hits :: nat
  bp_misses :: nat

definition new_BufferPool :: BufferPool where
  "new_BufferPool = \<lparr>bp_pool = [], bp_hits = 0, bp_misses = 0\<rparr>"

text \<open>
  The loop of \<^verbatim>\<open>acquire\<close>: the first idle buffer that is long enough, and the idle list
  with that buffer spliced out.
\<close>

fun first_fit :: "int \<Rightarrow> buffer list \<Rightarrow> (buffer \<times> buffer list) option" where
  "first_fit sz [] = None"
| "first_fit sz (buf # rest) =
     (if int (buf_length buf) \<ge> sz then Some (buf, rest)
      else (case first_fit sz rest of
              None \<Rightarrow> None
            | Some (found, rest') \<Rightarrow> Some (found, buf # rest')))"

text \<open>
  \<^verbatim>\<open>acquire\<close> returns the buffer, or fails with what the allocation threw. In the two
  branches that allocate, the miss is counted before the allocation, so it is counted
  also when the allocation throws.
\<close>

definition acquire ::
  "int \<Rightarrow> (nat \<Rightarrow> byte) \<Rightarrow> int \<Rightarrow> memory \<times> BufferPool
     \<Rightarrow> (error + buffer) \<times> memory \<times> BufferPool" where
  "acquire L junk sz w =
     (let m = fst w; p = snd w in
      if sz > int (POOL_SIZE * 2)
      then (let p1 = p\<lparr>bp_misses := bp_misses p + 1\<rparr>;
                (r, m') = allocUnsafe L junk sz m
            in (r, m', p1))
      else
        case first_fit sz (bp_pool p) of
          Some (buf, rest) \<Rightarrow>
            (Inr (if int (buf_length buf) = sz then buf else slice0 buf sz),
             m, p\<lparr>bp_pool := rest, bp_hits := bp_hits p + 1\<rparr>)
        | None \<Rightarrow>
            (let p1 = p\<lparr>bp_misses := bp_misses p + 1\<rparr>;
                 (r, m') = allocUnsafe L junk (max sz (int POOL_SIZE)) m
             in (r, m', p1)))"

definition release :: "buffer \<Rightarrow> memory \<times> BufferPool \<Rightarrow> memory \<times> BufferPool" where
  "release b w =
     (let m = fst w; p = snd w in
      if buf_length b \<le> POOL_SIZE * 2 \<and> length (bp_pool p) < MAX_POOL_ENTRIES
      then (fill_zero b m, p\<lparr>bp_pool := bp_pool p @ [b]\<rparr>)
      else (m, p))"

definition bp_stats :: "BufferPool \<Rightarrow> stats" where
  "bp_stats p =
     \<lparr>st_size = length (bp_pool p), st_hits = bp_hits p, st_misses = bp_misses p\<rparr>"

definition bp_clear :: "BufferPool \<Rightarrow> BufferPool" where
  "bp_clear p = p\<lparr>bp_pool := []\<rparr>"

text \<open>
  What callers do to the memory and the pool: they acquire buffers, release buffers,
  clear the pool, and write bytes through buffers. \<^verbatim>\<open>buf[i] = x\<close> with \<open>i\<close> outside the
  buffer's length is ignored, as a typed array does. Every step is performed as the code
  performs it: the pool checks nothing about who holds a buffer. Next to the memory and
  the pool, a run keeps the list of the buffers that \<^verbatim>\<open>acquire\<close> has handed out and that
  have not been released since; this list is bookkeeping of the model and no step reads
  it.
\<close>

definition covers :: "buffer \<Rightarrow> nat \<Rightarrow> nat \<Rightarrow> bool" where
  "covers b blk i =
     (buf_block b = blk \<and> buf_offset b \<le> i \<and> i < buf_offset b + buf_length b)"

definition mem_write :: "nat \<Rightarrow> nat \<Rightarrow> byte \<Rightarrow> memory \<Rightarrow> memory" where
  "mem_write blk i x m = m[blk := (m ! blk)[i := x]]"

definition buffer_write :: "buffer \<Rightarrow> nat \<Rightarrow> byte \<Rightarrow> memory \<Rightarrow> memory" where
  "buffer_write b i x m =
     (if i < buf_length b then mem_write (buf_block b) (buf_offset b + i) x m else m)"

datatype pool_op =
  Acquire "nat \<Rightarrow> byte" int
| Release buffer
| ClearPool
| Write buffer nat byte

type_synonym session = "buffer list \<times> memory \<times> BufferPool"

fun pool_step :: "int \<Rightarrow> pool_op \<Rightarrow> session \<Rightarrow> session" where
  "pool_step L (Acquire junk sz) s =
     (case fst (acquire L junk sz (snd s)) of
        Inr buf \<Rightarrow> (fst s @ [buf], snd (acquire L junk sz (snd s)))
      | Inl failure \<Rightarrow> (fst s, snd (acquire L junk sz (snd s))))"
| "pool_step L (Release b) s = (remove1 b (fst s), release b (snd s))"
| "pool_step L ClearPool s = (fst s, fst (snd s), bp_clear (snd (snd s)))"
| "pool_step L (Write b i x) s = (fst s, buffer_write b i x (fst (snd s)), snd (snd s))"

fun pool_run :: "int \<Rightarrow> pool_op list \<Rightarrow> session \<Rightarrow> session" where
  "pool_run L [] s = s"
| "pool_run L (x # xs) s = pool_run L xs (pool_step L x s)"

text \<open>
  The contract that the pool asks of its callers: a caller releases a buffer that
  \<^verbatim>\<open>acquire\<close> gave it, once, and writes only through a buffer that \<^verbatim>\<open>acquire\<close> gave it
  and that it has not released. It is a condition on the callers' steps alone.
\<close>

fun allowed :: "pool_op \<Rightarrow> buffer list \<Rightarrow> bool" where
  "allowed (Acquire junk sz) held = True"
| "allowed (Release b) held = (b \<in> set held)"
| "allowed ClearPool held = True"
| "allowed (Write b i x) held = (b \<in> set held)"

fun keeps_contract :: "int \<Rightarrow> pool_op list \<Rightarrow> session \<Rightarrow> bool" where
  "keeps_contract L [] s = True"
| "keeps_contract L (x # xs) s = (allowed x (fst s) \<and> keeps_contract L xs (pool_step L x s))"

text \<open>An acquire is satisfied from the idle list when it is counted as a hit.\<close>

definition from_pool :: "int \<Rightarrow> BufferPool \<Rightarrow> bool" where
  "from_pool sz p = (\<not> sz > int (POOL_SIZE * 2) \<and> first_fit sz (bp_pool p) \<noteq> None)"

definition all_zero :: "byte list \<Rightarrow> bool" where
  "all_zero bs = list_all (\<lambda>x. x = 0) bs"

text \<open>
  The invariant of a run whose callers keep the contract: the buffers handed out and
  the idle buffers are views of existing memory, no two of them share a byte, and every
  idle buffer reads as zeros.
\<close>

definition disjoint :: "buffer \<Rightarrow> buffer \<Rightarrow> bool" where
  "disjoint a b =
     (buf_block a \<noteq> buf_block b
      \<or> buf_offset a + buf_length a \<le> buf_offset b
      \<or> buf_offset b + buf_length b \<le> buf_offset a)"

fun separate :: "buffer list \<Rightarrow> bool" where
  "separate [] = True"
| "separate (b # bs) = (list_all (disjoint b) bs \<and> separate bs)"

definition pool_inv :: "session \<Rightarrow> bool" where
  "pool_inv s =
     (list_all (valid_buffer (fst (snd s))) (fst s @ bp_pool (snd (snd s)))
      \<and> separate (fst s @ bp_pool (snd (snd s)))
      \<and> list_all (\<lambda>b. all_zero (buffer_bytes (fst (snd s)) b)) (bp_pool (snd (snd s))))"

text \<open>
  Worked examples. The platform limit is 9007199254740991 bytes and uninitialised
  memory reads 255. The memory starts with one block of four bytes that a caller has
  written, with the caller's own buffer on it, and the pool is new.

  In the first run the caller keeps the contract: it acquires 4 bytes and gets a new
  block of \<^verbatim>\<open>POOL_SIZE\<close> bytes, writes into it and releases it; it acquires 4 bytes again
  and gets the first four bytes of that block, writes into them and releases them.

  In the second run the caller releases its own buffer twice, acquires 4 bytes, gets the
  buffer back, and writes into it while the second copy is still idle.
\<close>

definition example_max_length :: int where
  "example_max_length = 9007199254740991"

definition example_junk :: "nat \<Rightarrow> byte" where
  "example_junk i = 255"

definition example_memory :: memory where
  "example_memory = [[1, 2, 3, 4]]"

definition example_buffer :: buffer where
  "example_buffer = \<lparr>buf_block = 0, buf_offset = 0, buf_length = 4\<rparr>"

definition example_session :: session where
  "example_session = ([], example_memory, new_BufferPool)"

definition pooled_block :: buffer where
  "pooled_block = \<lparr>buf_block = 1, buf_offset = 0, buf_length = 8192\<rparr>"

definition pooled_slice :: buffer where
  "pooled_slice = \<lparr>buf_block = 1, buf_offset = 0, buf_length = 4\<rparr>"

definition example_requests :: "pool_op list" where
  "example_requests =
     [Acquire example_junk 4, Write pooled_block 0 42, Release pooled_block,
      Acquire example_junk 4, Write pooled_slice 1 7, Release pooled_slice]"

definition double_release :: "pool_op list" where
  "double_release =
     [Release example_buffer, Release example_buffer, Acquire example_junk 4,
      Write example_buffer 0 42]"

section \<open>The content-type cache (lib/content-type-cache.js)\<close>

text \<open>
  The parsed content type is the object \<^verbatim>\<open>{ type, parameters }\<close>. The parser is the
  caller's: it returns such an object or throws, here \<open>Inl\<close> with what it threw. An
  object is truthy, so the test \<^verbatim>\<open>if (cached)\<close> is the test that the header is a key
  of the map. The constant \<^verbatim>\<open>MAX_CACHE_SIZE\<close> of this module is \<open>CT_MAX_CACHE_SIZE\<close>
  here, the parse cache having a constant of the same name.
\<close>

record content_type =
  ct_type :: string
  ct_parameters :: "(string \<times> string) list"

definition CT_MAX_CACHE_SIZE :: nat where
  "CT_MAX_CACHE_SIZE = 50"

definition COMMON_TYPES :: "(string, content_type) jsmap" where
  "COMMON_TYPES =
     [(''application/json'',
         \<lparr>ct_type = ''application/json'', ct_parameters = []\<rparr>),
      (''application/json; charset=utf-8'',
         \<lparr>ct_type = ''application/json'', ct_parameters = [(''charset'', ''utf-8'')]\<rparr>),
      (''application/x-www-form-urlencoded'',
         \<lparr>ct_type = ''application/x-www-form-urlencoded'', ct_parameters = []\<rparr>),
      (''application/x-www-form-urlencoded; charset=utf-8'',
         \<lparr>ct_type = ''application/x-www-form-urlencoded'',
          ct_parameters = [(''charset'', ''utf-8'')]\<rparr>),
      (''text/plain'',
         \<lparr>ct_type = ''text/plain'', ct_parameters = []\<rparr>),
      (''text/plain; charset=utf-8'',
         \<lparr>ct_type = ''text/plain'', ct_parameters = [(''charset'', ''utf-8'')]\<rparr>)]"

record ContentTypeCache =
  ct_cache :: "(string, content_type) jsmap"
  ct_hits :: nat
  ct_misses :: nat

definition new_ContentTypeCache :: ContentTypeCache where
  "new_ContentTypeCache = \<lparr>ct_cache = COMMON_TYPES, ct_hits = 0, ct_misses = 0\<rparr>"

definition ct_parse ::
  "string \<Rightarrow> (string \<Rightarrow> 'e + content_type) \<Rightarrow> ContentTypeCache
     \<Rightarrow> ('e + content_type) \<times> ContentTypeCache" where
  "ct_parse header parser s =
     (case jm_get (ct_cache s) header of
        Some cached \<Rightarrow> (Inr cached, s\<lparr>ct_hits := ct_hits s + 1\<rparr>)
      | None \<Rightarrow>
          (let s1 = s\<lparr>ct_misses := ct_misses s + 1\<rparr> in
           case parser header of
             Inl failure \<Rightarrow> (Inl failure, s1)
           | Inr parsed \<Rightarrow>
               (Inr parsed,
                if jm_size (ct_cache s1) < CT_MAX_CACHE_SIZE
                then s1\<lparr>ct_cache := jm_set header parsed (ct_cache s1)\<rparr>
                else s1)))"

definition ct_stats :: "ContentTypeCache \<Rightarrow> stats" where
  "ct_stats s =
     \<lparr>st_size = jm_size (ct_cache s), st_hits = ct_hits s, st_misses = ct_misses s\<rparr>"

definition ct_clear :: "ContentTypeCache \<Rightarrow> ContentTypeCache" where
  "ct_clear s = s\<lparr>ct_cache := COMMON_TYPES\<rparr>"

text \<open>
  Sequences of operations on one content-type cache, and the entries that are not part
  of the seed.
\<close>

datatype 'e ct_op = Parse string "string \<Rightarrow> 'e + content_type" | ClearTypes

fun ct_step :: "'e ct_op \<Rightarrow> ContentTypeCache \<Rightarrow> ContentTypeCache" where
  "ct_step (Parse header parser) s = snd (ct_parse header parser s)"
| "ct_step ClearTypes s = ct_clear s"

fun ct_run :: "'e ct_op list \<Rightarrow> ContentTypeCache \<Rightarrow> ContentTypeCache" where
  "ct_run [] s = s"
| "ct_run (x # xs) s = ct_run xs (ct_step x s)"

definition dynamic_entries :: "ContentTypeCache \<Rightarrow> (string, content_type) jsmap" where
  "dynamic_entries s = filter (\<lambda>x. fst x \<notin> set (jm_keys COMMON_TYPES)) (ct_cache s)"

definition ct_inv :: "ContentTypeCache \<Rightarrow> bool" where
  "ct_inv s =
     (jm_wf (ct_cache s) \<and> jm_size (ct_cache s) \<le> CT_MAX_CACHE_SIZE
      \<and> take (length COMMON_TYPES) (ct_cache s) = COMMON_TYPES)"

text \<open>
  Worked examples: a parser that accepts every header, a parser that rejects every
  header, and 45 one-letter headers, \<open>A\<close> to \<open>Z\<close> and \<open>a\<close> to \<open>s\<close>.
\<close>

definition accept_all :: "string \<Rightarrow> string + content_type" where
  "accept_all header = Inr \<lparr>ct_type = header, ct_parameters = []\<rparr>"

definition reject_all :: "string \<Rightarrow> string + content_type" where
  "reject_all header = Inl ''invalid media type''"

definition example_headers :: "string list" where
  "example_headers = map (\<lambda>c. [c]) ''ABCDEFGHIJKLMNOPQRSTUVWXYZabcdefghijklmnopqrs''"

text \<open>
  A platform for the worked examples: bytes are decoded one character each, and the
  digest is a stand-in. Every example uses bodies shorter than 100 characters or longer
  than the cacheable size, so no example evaluates the digest.
\<close>

definition example_platform :: platform where
  "example_platform =
     \<lparr>buf_toString = map (\<lambda>w. char_of (unat w)),
      sha256_hex = (\<lambda>s. ''sha256:'' @ s)\<rparr>"

text \<open>
  A cache of maximum size 2 after two insertions: \<open>a\<close> at time 0 and \<open>b\<close> at time 1,
  with a TTL of 60000.
\<close>

definition example_cache :: "nat ParseCache" where
  "example_cache =
     pc_run example_platform [Set 0 (Str ''a'') 1, Set 1 (Str ''b'') 2] (new_ParseCache 60000 2)"


section \<open>Facts about insertion-ordered maps\<close>

lemma jm_get_None_iff: "jm_get m k = None \<longleftrightarrow> k \<notin> set (jm_keys m)"
  by (induction m) (force simp: jm_keys_def split: if_splits)+

lemma jm_get_set: "jm_get (jm_set k v m) k' = (if k' = k then Some v else jm_get m k')"
  by (induction m) auto

lemma jm_delete_filter: "jm_delete k m = filter (\<lambda>x. fst x \<noteq> k) m"
  by (induction m) auto

lemma jm_get_delete: "jm_get (jm_delete k m) k' = (if k' = k then None else jm_get m k')"
  by (induction m) auto

lemma jm_keys_set:
  "jm_keys (jm_set k v m) = (if k \<in> set (jm_keys m) then jm_keys m else jm_keys m @ [k])"
  by (induction m) (force simp: jm_keys_def)+

lemma jm_keys_delete: "jm_keys (jm_delete k m) = removeAll k (jm_keys m)"
  by (induction m) (auto simp: jm_keys_def)

lemma jm_wf_set: "jm_wf m \<Longrightarrow> jm_wf (jm_set k v m)"
  by (simp add: jm_wf_def jm_keys_set)

lemma jm_wf_delete: "jm_wf m \<Longrightarrow> jm_wf (jm_delete k m)"
  by (simp add: jm_wf_def jm_keys_delete distinct_removeAll)

lemma jm_size_set:
  "jm_size (jm_set k v m) = (if k \<in> set (jm_keys m) then jm_size m else jm_size m + 1)"
  by (induction m) (force simp: jm_size_def jm_keys_def)+

lemma jm_delete_absent: "k \<notin> set (jm_keys m) \<Longrightarrow> jm_delete k m = m"
  by (induction m) (auto simp: jm_keys_def)

lemma jm_size_delete_le: "jm_size (jm_delete k m) \<le> jm_size m"
  by (induction m) (auto simp: jm_size_def)

lemma evict_first_Cons: "jm_wf ((k, e) # m) \<Longrightarrow> evict_first ((k, e) # m) = m"
  by (simp add: evict_first_def jm_wf_def jm_keys_def jm_delete_absent)

lemma jm_wf_evict_first: "jm_wf m \<Longrightarrow> jm_wf (evict_first m)"
  by (cases m) (auto simp: evict_first_def intro: jm_wf_delete)

lemma jm_size_evict_first:
  assumes "jm_wf m"
  shows "jm_size (evict_first m) = jm_size m - 1"
proof (cases m)
  case Nil
  then show ?thesis by (simp add: evict_first_def jm_size_def)
next
  case (Cons x m')
  then show ?thesis using assms evict_first_Cons [of "fst x" "snd x" m'] by (simp add: jm_size_def)
qed

lemma jm_set_append_new:
  "k \<notin> set (jm_keys m) \<Longrightarrow> jm_set k v m = m @ [(k, v)]"
  by (induction m) (auto simp: jm_keys_def)

lemma jm_wf_filter: "jm_wf m \<Longrightarrow> jm_wf (filter Q m)"
  by (simp add: jm_wf_def jm_keys_def distinct_map_filter)

lemma jm_size_set_le: "jm_size (jm_set k v m) \<le> jm_size m + 1"
  by (simp add: jm_size_set)

section \<open>Facts about the parse cache\<close>

lemma cleanup_loop_fst:
  "fst (cleanup_loop now es m n) =
     filter (\<lambda>y. fst y \<notin> fst ` {x \<in> set es. now > expiresAt (snd x)}) m"
proof (induction es arbitrary: m n)
  case Nil
  then show ?case by simp
next
  case (Cons x es)
  obtain k e where x: "x = (k, e)" by (cases x)
  show ?case
  proof (cases "now > expiresAt e")
    case True
    have "fst ` {y \<in> set (x # es). now > expiresAt (snd y)}
            = insert k (fst ` {y \<in> set es. now > expiresAt (snd y)})"
      using True x by force
    then show ?thesis
      using True x Cons.IH [of "jm_delete k m" "n + 1"]
      by (simp add: jm_delete_filter del: jm_delete.simps)
  next
    case False
    have "{y \<in> set (x # es). now > expiresAt (snd y)} = {y \<in> set es. now > expiresAt (snd y)}"
      using False x by auto
    then show ?thesis
      using False x Cons.IH [of m n] by simp
  qed
qed

lemma cleanup_loop_snd:
  "snd (cleanup_loop now es m n) = n + length (filter (\<lambda>x. now > expiresAt (snd x)) es)"
  by (induction es arbitrary: m n) auto

lemma cleanup_loop_self:
  assumes "jm_wf m"
  shows "fst (cleanup_loop now m m n) = filter (\<lambda>x. \<not> now > expiresAt (snd x)) m"
proof -
  have "\<And>x. x \<in> set m \<Longrightarrow>
          (fst x \<notin> fst ` {y \<in> set m. now > expiresAt (snd y)}) = (\<not> now > expiresAt (snd x))"
  proof -
    fix x assume xm: "x \<in> set m"
    have "\<And>y. y \<in> set m \<Longrightarrow> fst y = fst x \<Longrightarrow> y = x"
      using assms xm by (metis jm_wf_def jm_keys_def eq_key_imp_eq_value prod.collapse)
    then show "(fst x \<notin> fst ` {y \<in> set m. now > expiresAt (snd y)}) = (\<not> now > expiresAt (snd x))"
      using xm by force
  qed
  then show ?thesis
    unfolding cleanup_loop_fst
    by (intro filter_cong) auto
qed

lemma pc_set_cacheable:
  "body_length b \<le> MAX_CACHEABLE_SIZE \<Longrightarrow>
   pc_set P now b v s =
     (if int (jm_size (pc_cache s)) \<ge> pc_maxSize s
      then s\<lparr>pc_cache := jm_set (generateKey P b) \<lparr>entry_value = v, expiresAt = now + pc_ttl s\<rparr>
                             (evict_first (pc_cache s)),
             pc_evictions := pc_evictions s + 1\<rparr>
      else s\<lparr>pc_cache := jm_set (generateKey P b) \<lparr>entry_value = v, expiresAt = now + pc_ttl s\<rparr>
                             (pc_cache s)\<rparr>)"
  by (simp add: pc_set_def Let_def)

lemma pc_set_lookup:
  "body_length b \<le> MAX_CACHEABLE_SIZE \<Longrightarrow>
   jm_get (pc_cache (pc_set P now b v s)) (generateKey P b)
     = Some \<lparr>entry_value = v, expiresAt = now + pc_ttl s\<rparr>"
  by (simp add: pc_set_cacheable jm_get_set)

lemma pc_cleanup_eq:
  assumes "jm_wf (pc_cache s)"
  shows "pc_cleanup now s =
           (length (filter (\<lambda>x. now > expiresAt (snd x)) (pc_cache s)),
            s\<lparr>pc_cache := filter (\<lambda>x. \<not> now > expiresAt (snd x)) (pc_cache s)\<rparr>)"
proof -
  obtain m n where mn: "cleanup_loop now (pc_cache s) (pc_cache s) 0 = (m, n)"
    by (cases "cleanup_loop now (pc_cache s) (pc_cache s) 0")
  have "m = filter (\<lambda>x. \<not> now > expiresAt (snd x)) (pc_cache s)"
    using cleanup_loop_self [OF assms, of now 0] mn by simp
  moreover have "n = length (filter (\<lambda>x. now > expiresAt (snd x)) (pc_cache s))"
    using cleanup_loop_snd [of now "pc_cache s" "pc_cache s" 0] mn by simp
  ultimately show ?thesis
    by (simp add: pc_cleanup_def mn)
qed

lemma pc_get_expired:
  "body_length b \<le> MAX_CACHEABLE_SIZE \<Longrightarrow>
   jm_get (pc_cache s) (generateKey P b) = Some e \<Longrightarrow> now > expiresAt e \<Longrightarrow>
   pc_get P now b s =
     (None, s\<lparr>pc_cache := jm_delete (generateKey P b) (pc_cache s),
              pc_misses := pc_misses s + 1\<rparr>)"
  by (simp add: pc_get_def)

lemma pc_get_never_expired:
  "jm_get (pc_cache s) (generateKey P b) = Some e \<Longrightarrow> now > expiresAt e \<Longrightarrow>
   fst (pc_get P now b s) = None"
  by (simp add: pc_get_def)

lemma pc_inv_get: "pc_inv M s \<Longrightarrow> pc_inv M (snd (pc_get P now b s))"
  using jm_size_delete_le [of "generateKey P b" "pc_cache s"]
  by (auto simp: pc_inv_def pc_get_def Let_def jm_wf_delete split: option.splits)

lemma pc_inv_set:
  assumes "1 \<le> M" "pc_inv M s"
  shows "pc_inv M (pc_set P now b v s)"
proof (cases "body_length b \<le> MAX_CACHEABLE_SIZE")
  case False
  then show ?thesis using assms by (simp add: pc_set_def)
next
  case True
  let ?e = "\<lparr>entry_value = v, expiresAt = now + pc_ttl s\<rparr>"
  let ?k = "generateKey P b"
  from assms have wf: "jm_wf (pc_cache s)" and M: "pc_maxSize s = M"
    and le: "int (jm_size (pc_cache s)) \<le> M"
    by (simp_all add: pc_inv_def)
  show ?thesis
  proof (cases "int (jm_size (pc_cache s)) \<ge> pc_maxSize s")
    case full: True
    have "jm_size (evict_first (pc_cache s)) = jm_size (pc_cache s) - 1"
      by (rule jm_size_evict_first [OF wf])
    moreover have "jm_size (pc_cache s) \<ge> 1"
      using full M assms(1) by linarith
    ultimately have "int (jm_size (jm_set ?k ?e (evict_first (pc_cache s)))) \<le> M"
      using jm_size_set_le [of ?k ?e "evict_first (pc_cache s)"] le by linarith
    then show ?thesis
      using True full wf M
      by (simp add: pc_set_cacheable pc_inv_def jm_wf_set jm_wf_evict_first)
  next
    case notfull: False
    have "int (jm_size (jm_set ?k ?e (pc_cache s))) \<le> M"
      using jm_size_set_le [of ?k ?e "pc_cache s"] notfull M by linarith
    then show ?thesis
      using True notfull wf M
      by (simp add: pc_set_cacheable pc_inv_def jm_wf_set)
  qed
qed

lemma pc_inv_cleanup: "pc_inv M s \<Longrightarrow> pc_inv M (snd (pc_cleanup now s))"
proof -
  assume a: "pc_inv M s"
  then have wf: "jm_wf (pc_cache s)" by (simp add: pc_inv_def)
  have "length (filter (\<lambda>x. \<not> now > expiresAt (snd x)) (pc_cache s)) \<le> length (pc_cache s)"
    by (rule length_filter_le)
  moreover have "int (length (pc_cache s)) \<le> M"
    using a by (simp add: pc_inv_def jm_size_def)
  ultimately have "int (jm_size (filter (\<lambda>x. \<not> now > expiresAt (snd x)) (pc_cache s))) \<le> M"
    unfolding jm_size_def by linarith
  then show ?thesis
    using a by (simp add: pc_cleanup_eq [OF wf] pc_inv_def jm_wf_filter)
qed

lemma pc_inv_clear: "0 \<le> M \<Longrightarrow> pc_inv M s \<Longrightarrow> pc_inv M (pc_clear s)"
  by (simp add: pc_inv_def pc_clear_def jm_wf_def jm_keys_def jm_size_def)

lemma pc_inv_step: "1 \<le> M \<Longrightarrow> pc_inv M s \<Longrightarrow> pc_inv M (pc_step P x s)"
  by (cases x) (simp_all add: pc_inv_get pc_inv_set pc_inv_cleanup pc_inv_clear)

lemma pc_inv_run: "1 \<le> M \<Longrightarrow> pc_inv M s \<Longrightarrow> pc_inv M (pc_run P xs s)"
  by (induction xs arbitrary: s) (simp_all add: pc_inv_step)

lemma pc_inv_new: "0 \<le> M \<Longrightarrow> pc_inv M (new_ParseCache ttl M)"
  by (simp add: pc_inv_def new_ParseCache_def jm_wf_def jm_keys_def jm_size_def)

lemma pc_get_hit_cache:
  "fst (pc_get P t b s) = Some x \<Longrightarrow>
     pc_cache (snd (pc_get P t b s)) = pc_cache s
     \<and> pc_evictions (snd (pc_get P t b s)) = pc_evictions s
     \<and> pc_maxSize (snd (pc_get P t b s)) = pc_maxSize s
     \<and> pc_ttl (snd (pc_get P t b s)) = pc_ttl s"
  by (auto simp: pc_get_def Let_def split: if_splits option.splits)

lemma pc_set_full:
  assumes "jm_wf (pc_cache s)" "body_length b \<le> MAX_CACHEABLE_SIZE"
    and "int (jm_size (pc_cache s)) \<ge> pc_maxSize s" "pc_cache s = (k0, e0) # rest"
  shows "pc_set P now b v s =
           s\<lparr>pc_cache := jm_set (generateKey P b)
                            \<lparr>entry_value = v, expiresAt = now + pc_ttl s\<rparr> rest,
             pc_evictions := pc_evictions s + 1\<rparr>"
  using assms evict_first_Cons [of k0 e0 rest]
  by (simp add: pc_set_cacheable)

lemma pc_run_ttl: "pc_ttl (pc_run P xs s) = pc_ttl s"
proof (induction xs arbitrary: s)
  case Nil
  then show ?case by simp
next
  case (Cons x xs)
  have "pc_ttl (pc_step P x s) = pc_ttl s"
    by (cases x)
       (auto simp: pc_get_def pc_set_def pc_cleanup_def pc_clear_def Let_def
             split: option.splits prod.splits)
  then show ?case using Cons.IH [of "pc_step P x s"] by simp
qed

lemma pc_insert_run:
  assumes "jm_wf (pc_cache s)"
    and "\<forall>x \<in> set bs. body_length x \<le> MAX_CACHEABLE_SIZE"
    and "distinct (map (generateKey P) bs)"
    and "set (jm_keys (pc_cache s)) \<inter> set (map (generateKey P) bs) = {}"
    and "int (jm_size (pc_cache s)) + int (length bs) \<le> pc_maxSize s"
  shows "pc_cache (pc_run P (map (\<lambda>x. Set (clock x) x (val x)) bs) s)
           = pc_cache s @ map (\<lambda>x. (generateKey P x,
                                     \<lparr>entry_value = val x, expiresAt = clock x + pc_ttl s\<rparr>)) bs
         \<and> pc_evictions (pc_run P (map (\<lambda>x. Set (clock x) x (val x)) bs) s) = pc_evictions s"
  using assms
proof (induction bs arbitrary: s)
  case Nil
  then show ?case by simp
next
  case (Cons b bs)
  let ?s1 = "pc_set P (clock b) b (val b) s"
  let ?e = "\<lparr>entry_value = val b, expiresAt = clock b + pc_ttl s\<rparr>"
  have c: "body_length b \<le> MAX_CACHEABLE_SIZE" using Cons.prems(2) by simp
  have room: "\<not> int (jm_size (pc_cache s)) \<ge> pc_maxSize s" using Cons.prems(5) by simp
  have new: "generateKey P b \<notin> set (jm_keys (pc_cache s))" using Cons.prems(4) by auto
  have s1: "?s1 = s\<lparr>pc_cache := pc_cache s @ [(generateKey P b, ?e)]\<rparr>"
  proof -
    have "jm_set (generateKey P b) ?e (pc_cache s) = pc_cache s @ [(generateKey P b, ?e)]"
      using new by (rule jm_set_append_new)
    then show ?thesis using c room by (simp add: pc_set_cacheable)
  qed
  have 1: "jm_wf (pc_cache ?s1)" by (simp add: pc_set_cacheable c jm_wf_set jm_wf_evict_first Cons.prems(1))
  have 2: "\<forall>x \<in> set bs. body_length x \<le> MAX_CACHEABLE_SIZE" using Cons.prems(2) by simp
  have 3: "distinct (map (generateKey P) bs)" using Cons.prems(3) by simp
  have 4: "set (jm_keys (pc_cache ?s1)) \<inter> set (map (generateKey P) bs) = {}"
    using Cons.prems(3,4) by (auto simp: s1 jm_keys_def)
  have 5: "int (jm_size (pc_cache ?s1)) + int (length bs) \<le> pc_maxSize ?s1"
    using Cons.prems(5) by (simp add: s1 jm_size_def)
  show ?case
    using Cons.IH [OF 1 2 3 4 5] by (simp add: s1)
qed

lemma pc_overflow_first_inserted:
  assumes "1 \<le> M" and "int (length bs) = M"
    and "distinct (map (generateKey P) (bs @ [b]))"
    and "\<forall>x \<in> set (bs @ [b]). body_length x \<le> MAX_CACHEABLE_SIZE"
    and "\<not> t > clock (hd bs) + ttl"
    and "s = insert_all P clock val bs (new_ParseCache ttl M)"
  shows "fst (pc_get P t (hd bs) s) = Some (val (hd bs))
     \<and> jm_keys (pc_cache (pc_set P now b v (snd (pc_get P t (hd bs) s))))
         = map (generateKey P) (tl bs @ [b])
     \<and> pc_evictions (pc_set P now b v (snd (pc_get P t (hd bs) s))) = 1"
proof -
  let ?new = "new_ParseCache ttl M :: 'a ParseCache"
  let ?ent = "\<lambda>x. (generateKey P x, \<lparr>entry_value = val x, expiresAt = clock x + ttl\<rparr>)"
  have run: "pc_cache s = map ?ent bs \<and> pc_evictions s = 0"
    using pc_insert_run [of ?new bs P clock val] assms
    by (simp add: insert_all_def new_ParseCache_def jm_wf_def jm_keys_def jm_size_def)
  obtain b0 rest where bs: "bs = b0 # rest"
    using assms(1,2) by (cases bs) auto
  have "pc_inv M s"
    unfolding assms(6) insert_all_def using assms(1) by (intro pc_inv_run pc_inv_new) simp_all
  then have M: "pc_maxSize s = M"
    by (simp add: pc_inv_def)
  have ttl: "pc_ttl s = ttl"
    by (simp add: assms(6) insert_all_def pc_run_ttl new_ParseCache_def)
  have c0: "body_length b0 \<le> MAX_CACHEABLE_SIZE" and cb: "body_length b \<le> MAX_CACHEABLE_SIZE"
    using assms(4) bs by simp_all
  have cache: "pc_cache s = ?ent b0 # map ?ent rest"
    using run bs by simp
  have hit: "fst (pc_get P t b0 s) = Some (val b0)"
    using c0 assms(5) bs by (simp add: pc_get_def cache)
  define s1 where "s1 = snd (pc_get P t b0 s)"
  have same: "pc_cache s1 = pc_cache s" "pc_evictions s1 = pc_evictions s"
    "pc_maxSize s1 = pc_maxSize s"
    using pc_get_hit_cache [OF hit] by (simp_all add: s1_def)
  have keys: "jm_keys (pc_cache s) = map (generateKey P) bs"
    using run by (simp add: jm_keys_def comp_def)
  have wf1: "jm_wf (pc_cache s1)"
    using assms(3) keys same by (simp add: jm_wf_def)
  have full: "int (jm_size (pc_cache s1)) \<ge> pc_maxSize s1"
    using run M assms(2) same by (simp add: jm_size_def)
  have c1: "pc_cache s1 = ?ent b0 # map ?ent rest"
    using cache same by simp
  let ?e = "\<lparr>entry_value = v, expiresAt = now + pc_ttl s1\<rparr>"
  have set1: "pc_set P now b v s1 =
           s1\<lparr>pc_cache := jm_set (generateKey P b) ?e (map ?ent rest),
              pc_evictions := pc_evictions s1 + 1\<rparr>"
    by (rule pc_set_full [OF wf1 cb full c1])
  have "generateKey P b \<notin> set (jm_keys (map ?ent rest))"
    using assms(3) bs by (auto simp: jm_keys_def)
  then have app: "jm_set (generateKey P b) ?e (map ?ent rest)
          = map ?ent rest @ [(generateKey P b, ?e)]"
    by (rule jm_set_append_new)
  have "jm_keys (pc_cache (pc_set P now b v s1)) = map (generateKey P) (tl bs @ [b])"
    by (simp add: set1 app bs jm_keys_def comp_def)
  moreover have "pc_evictions (pc_set P now b v s1) = 1"
    using run same by (simp add: set1)
  ultimately show ?thesis
    using hit by (simp add: s1_def bs)
qed

lemma key_short [simp]: "generateKey example_platform (Str ''a'') = ''a''"
  "generateKey example_platform (Str ''b'') = ''b''"
  "generateKey example_platform (Str ''c'') = ''c''"
  by (simp_all add: generateKey_def)

lemma example_cache_eq:
  "example_cache =
     \<lparr>pc_cache = [(''a'', \<lparr>entry_value = 1, expiresAt = 60000\<rparr>),
                  (''b'', \<lparr>entry_value = 2, expiresAt = 60001\<rparr>)],
      pc_ttl = 60000, pc_maxSize = 2, pc_hits = 0, pc_misses = 0, pc_evictions = 0\<rparr>"
  by (simp add: example_cache_def pc_set_def Let_def MAX_CACHEABLE_SIZE_def
        new_ParseCache_def jm_size_def)

section \<open>The size gate of get\<close>

text \<open>
  C1, as the specification states it: a body longer than the maximum cacheable size is
  reported not-found and the miss counter of \<^verbatim>\<open>stats()\<close> grows by one. The code returns
  before it touches a counter: on a fresh cache a body of 10241 characters is not found
  and the miss counter stays 0.
\<close>

theorem C1_oversize_get_counts_miss_counterexample:
  "\<not> (st_misses (pc_stats (snd (pc_get example_platform 0 (Str (replicate 10241 CHR ''a''))
          (new_ParseCache DEFAULT_TTL MAX_CACHE_SIZE :: nat ParseCache))))
       = st_misses (pc_stats (new_ParseCache DEFAULT_TTL MAX_CACHE_SIZE :: nat ParseCache)) + 1)"
  by (simp add: pc_get_def pc_stats_def new_ParseCache_def MAX_CACHEABLE_SIZE_def)

text \<open>
  C1, amended: for every body whose length exceeds the maximum cacheable size,
  \<^verbatim>\<open>get(body)\<close> reports not-found without any lookup and leaves the cache, its entries
  and all its counters as they were, so \<^verbatim>\<open>stats()\<close> is unchanged and the outcome is
  not counted as a miss.
\<close>

theorem C1_oversize_get_not_found_unchanged:
  "body_length b > MAX_CACHEABLE_SIZE \<Longrightarrow>
     pc_get P now b s = (None, s) \<and> pc_stats (snd (pc_get P now b s)) = pc_stats s"
  by (simp add: pc_get_def)

theorem C1_oversize_get_not_found_unchanged_witness:
  "body_length (Buf (replicate 10241 0)) > MAX_CACHEABLE_SIZE \<and>
   pc_get example_platform 5 (Buf (replicate 10241 0))
       (new_ParseCache 60000 100 :: nat ParseCache)
     = (None, new_ParseCache 60000 100)"
  using C1_oversize_get_not_found_unchanged
          [of "Buf (replicate 10241 0)" example_platform 5 "new_ParseCache 60000 100 :: nat ParseCache"]
  by (simp add: MAX_CACHEABLE_SIZE_def)

section \<open>Round trip\<close>

text \<open>
  C3: for every body no longer than the maximum cacheable size and every value \<open>v\<close>,
  \<^verbatim>\<open>set(body, v)\<close> at time \<open>now\<close> followed by \<^verbatim>\<open>get(body)\<close> at a time \<open>now'\<close> that is
  not past the entry's expiry \<open>now + ttl\<close> returns \<open>v\<close>, and the read is counted as a
  hit. The get that follows at once on a cache with a positive TTL is the case
  \<open>now' = now\<close>.
\<close>

theorem C3_set_get_roundtrip:
  "body_length b \<le> MAX_CACHEABLE_SIZE \<Longrightarrow> \<not> now' > now + pc_ttl s \<Longrightarrow>
     fst (pc_get P now' b (pc_set P now b v s)) = Some v
     \<and> pc_hits (snd (pc_get P now' b (pc_set P now b v s))) = pc_hits s + 1
     \<and> pc_misses (snd (pc_get P now' b (pc_set P now b v s))) = pc_misses s"
  by (simp add: pc_get_def pc_set_lookup Let_def) (simp add: pc_set_cacheable)

theorem C3_set_get_roundtrip_witness:
  "body_length (Str ''c'') \<le> MAX_CACHEABLE_SIZE
   \<and> \<not> (7::int) > 7 + pc_ttl example_cache
   \<and> fst (pc_get example_platform 7 (Str ''c'') (pc_set example_platform 7 (Str ''c'') 3 example_cache))
       = Some 3"
  using C3_set_get_roundtrip
          [where b = "Str ''c''" and now = 7 and now' = 7 and s = example_cache
             and P = example_platform and v = 3]
  by (simp add: example_cache_eq MAX_CACHEABLE_SIZE_def)

section \<open>Expiry\<close>

text \<open>
  C4: an entry whose expiry has passed is never returned by \<^verbatim>\<open>get\<close>. For every body, a
  lookup that finds an expired entry reports not-found; for a body that passes the size
  gate, \<^verbatim>\<open>get\<close> also deletes that entry and counts one miss. \<^verbatim>\<open>cleanup\<close> keeps exactly
  the entries that have not expired, in their order, and returns the number of entries
  it removed.
\<close>

theorem C4_expired_never_returned:
  assumes "jm_wf (pc_cache s)"
  shows
    "(\<forall>b e. jm_get (pc_cache s) (generateKey P b) = Some e \<and> now > expiresAt e
        \<longrightarrow> fst (pc_get P now b s) = None)
     \<and> (\<forall>b e. body_length b \<le> MAX_CACHEABLE_SIZE
          \<and> jm_get (pc_cache s) (generateKey P b) = Some e \<and> now > expiresAt e
        \<longrightarrow> pc_get P now b s =
              (None, s\<lparr>pc_cache := jm_delete (generateKey P b) (pc_cache s),
                       pc_misses := pc_misses s + 1\<rparr>)
            \<and> jm_get (pc_cache (snd (pc_get P now b s))) (generateKey P b) = None)
     \<and> pc_cleanup now s =
          (length (filter (\<lambda>x. now > expiresAt (snd x)) (pc_cache s)),
           s\<lparr>pc_cache := filter (\<lambda>x. \<not> now > expiresAt (snd x)) (pc_cache s)\<rparr>)
     \<and> fst (pc_cleanup now s)
          = jm_size (pc_cache s) - jm_size (pc_cache (snd (pc_cleanup now s)))"
proof -
  have a: "\<forall>b e. jm_get (pc_cache s) (generateKey P b) = Some e \<and> now > expiresAt e
        \<longrightarrow> fst (pc_get P now b s) = None"
    by (simp add: pc_get_never_expired)
  have b: "\<forall>b e. body_length b \<le> MAX_CACHEABLE_SIZE
          \<and> jm_get (pc_cache s) (generateKey P b) = Some e \<and> now > expiresAt e
        \<longrightarrow> pc_get P now b s =
              (None, s\<lparr>pc_cache := jm_delete (generateKey P b) (pc_cache s),
                       pc_misses := pc_misses s + 1\<rparr>)
            \<and> jm_get (pc_cache (snd (pc_get P now b s))) (generateKey P b) = None"
    by (simp add: pc_get_expired jm_get_delete)
  have c: "pc_cleanup now s =
          (length (filter (\<lambda>x. now > expiresAt (snd x)) (pc_cache s)),
           s\<lparr>pc_cache := filter (\<lambda>x. \<not> now > expiresAt (snd x)) (pc_cache s)\<rparr>)"
    by (rule pc_cleanup_eq [OF assms])
  have "length (filter (\<lambda>x. now > expiresAt (snd x)) (pc_cache s))
          + length (filter (\<lambda>x. \<not> now > expiresAt (snd x)) (pc_cache s)) = length (pc_cache s)"
    by (rule sum_length_filter_compl)
  then have d: "fst (pc_cleanup now s)
          = jm_size (pc_cache s) - jm_size (pc_cache (snd (pc_cleanup now s)))"
    by (simp add: c jm_size_def)
  from a b c d show ?thesis by blast
qed

theorem C4_expired_never_returned_witness:
  "jm_wf (pc_cache example_cache)
   \<and> body_length (Str ''a'') \<le> MAX_CACHEABLE_SIZE
   \<and> jm_get (pc_cache example_cache) (generateKey example_platform (Str ''a''))
        = Some \<lparr>entry_value = 1, expiresAt = 60000\<rparr>
   \<and> (60001::int) > expiresAt \<lparr>entry_value = 1::nat, expiresAt = 60000\<rparr>
   \<and> pc_get example_platform 60001 (Str ''a'') example_cache
        = (None, example_cache\<lparr>pc_cache := [(''b'', \<lparr>entry_value = 2, expiresAt = 60001\<rparr>)],
                                pc_misses := 1\<rparr>)
   \<and> pc_cleanup 60001 example_cache
        = (1, example_cache\<lparr>pc_cache := [(''b'', \<lparr>entry_value = 2, expiresAt = 60001\<rparr>)]\<rparr>)"
proof -
  have wf: "jm_wf (pc_cache example_cache)"
    by (simp add: example_cache_eq jm_wf_def jm_keys_def)
  have look: "jm_get (pc_cache example_cache) (generateKey example_platform (Str ''a''))
        = Some \<lparr>entry_value = 1, expiresAt = 60000\<rparr>"
    by (simp add: example_cache_eq)
  note inst = C4_expired_never_returned [OF wf, of example_platform 60001]
  have "(60001::int) > expiresAt \<lparr>entry_value = 1::nat, expiresAt = 60000\<rparr>"
    by simp
  with look have "pc_get example_platform 60001 (Str ''a'') example_cache =
      (None, example_cache\<lparr>pc_cache := jm_delete (generateKey example_platform (Str ''a''))
                                          (pc_cache example_cache),
                            pc_misses := pc_misses example_cache + 1\<rparr>)"
    using inst [THEN conjunct2, THEN conjunct1, rule_format,
                of "Str ''a''" "\<lparr>entry_value = 1, expiresAt = 60000\<rparr>"]
    by (simp add: MAX_CACHEABLE_SIZE_def)
  then have g: "pc_get example_platform 60001 (Str ''a'') example_cache
        = (None, example_cache\<lparr>pc_cache := [(''b'', \<lparr>entry_value = 2, expiresAt = 60001\<rparr>)],
                                pc_misses := 1\<rparr>)"
    by (simp add: example_cache_eq)
  from inst have "pc_cleanup 60001 example_cache =
          (length (filter (\<lambda>x. 60001 > expiresAt (snd x)) (pc_cache example_cache)),
           example_cache\<lparr>pc_cache := filter (\<lambda>x. \<not> 60001 > expiresAt (snd x))
                                           (pc_cache example_cache)\<rparr>)"
    by blast
  then have c: "pc_cleanup 60001 example_cache
        = (1, example_cache\<lparr>pc_cache := [(''b'', \<lparr>entry_value = 2, expiresAt = 60001\<rparr>)]\<rparr>)"
    by (simp add: example_cache_eq)
  from wf look g c show ?thesis by (simp add: MAX_CACHEABLE_SIZE_def)
qed

section \<open>Bounded size and first-in-first-out eviction\<close>

text \<open>
  C2, as the specification states it: the entry count never exceeds the configured
  maximum. The constructor takes any maximum. With a maximum of 0 the eviction step
  finds no key to delete and \<^verbatim>\<open>set\<close> stores the entry all the same: after one \<^verbatim>\<open>set\<close>
  on a new cache the count is 1.
\<close>

theorem C2_entry_count_bound_counterexample:
  "\<not> int (jm_size (pc_cache (pc_set example_platform 0 (Str ''a'') (1::nat)
                              (new_ParseCache 60000 0))))
       \<le> pc_maxSize (new_ParseCache 60000 0 :: nat ParseCache)"
  by (simp add: pc_set_def Let_def MAX_CACHEABLE_SIZE_def new_ParseCache_def jm_size_def
        evict_first_def)

text \<open>
  C2, amended: for a configured maximum of at least 1, after every sequence of
  \<^verbatim>\<open>get\<close>, \<^verbatim>\<open>set\<close>, \<^verbatim>\<open>cleanup\<close> and \<^verbatim>\<open>clear\<close> on a new cache the entry count is at most
  the maximum. A \<^verbatim>\<open>set\<close> that stores a body (one that passes the size gate) while the
  cache holds exactly \<open>maxSize\<close> entries deletes exactly the first key in insertion
  order, keeps every other entry in its place and increments the eviction counter by
  one. A \<^verbatim>\<open>get\<close> that hits leaves the map as it was, so reading the oldest entry does not
  change which entry the next \<^verbatim>\<open>set\<close> evicts. Inserting \<open>maxSize + 1\<close> bodies with
  distinct keys causes exactly one eviction, that of the first body inserted, also when
  that body is read, before its expiry, just before the last insertion.
\<close>

theorem C2_bounded_fifo_eviction:
  assumes "1 \<le> maxSize"
    and "s = pc_run P ops (new_ParseCache ttl maxSize)"
  shows "int (jm_size (pc_cache s)) \<le> maxSize
     \<and> (\<forall>now b v. body_length b \<le> MAX_CACHEABLE_SIZE \<and> int (jm_size (pc_cache s)) = maxSize \<longrightarrow>
           pc_cache (pc_set P now b v s)
             = jm_set (generateKey P b) \<lparr>entry_value = v, expiresAt = now + ttl\<rparr>
                 (tl (pc_cache s))
           \<and> pc_evictions (pc_set P now b v s) = pc_evictions s + 1
           \<and> int (jm_size (pc_cache (pc_set P now b v s))) \<le> maxSize
           \<and> (generateKey P b \<noteq> fst (hd (pc_cache s)) \<longrightarrow>
                jm_get (pc_cache (pc_set P now b v s)) (fst (hd (pc_cache s))) = None))
     \<and> (\<forall>t b0 x now b v. fst (pc_get P t b0 s) = Some x \<longrightarrow>
           pc_cache (pc_set P now b v (snd (pc_get P t b0 s))) = pc_cache (pc_set P now b v s)
           \<and> pc_evictions (pc_set P now b v (snd (pc_get P t b0 s)))
               = pc_evictions (pc_set P now b v s))
     \<and> (\<forall>bs b clock val t now v.
           int (length bs) = maxSize
           \<and> distinct (map (generateKey P) (bs @ [b]))
           \<and> (\<forall>x \<in> set (bs @ [b]). body_length x \<le> MAX_CACHEABLE_SIZE)
           \<and> \<not> t > clock (hd bs) + ttl \<longrightarrow>
           fst (pc_get P t (hd bs) (insert_all P clock val bs (new_ParseCache ttl maxSize)))
             = Some (val (hd bs) :: 'v)
           \<and> jm_keys (pc_cache (pc_set P now b v
                (snd (pc_get P t (hd bs) (insert_all P clock val bs (new_ParseCache ttl maxSize))))))
               = map (generateKey P) (tl bs @ [b])
           \<and> pc_evictions (pc_set P now b v
                (snd (pc_get P t (hd bs) (insert_all P clock val bs (new_ParseCache ttl maxSize)))))
               = 1)"
proof -
  have inv: "pc_inv maxSize s"
    unfolding assms(2) using assms(1) by (intro pc_inv_run pc_inv_new) simp_all
  then have wf: "jm_wf (pc_cache s)" and M: "pc_maxSize s = maxSize"
    and bound: "int (jm_size (pc_cache s)) \<le> maxSize"
    by (simp_all add: pc_inv_def)
  have ttl: "pc_ttl s = ttl"
    using assms(2) by (simp add: pc_run_ttl new_ParseCache_def)
  have evict: "pc_cache (pc_set P now b v s)
             = jm_set (generateKey P b) \<lparr>entry_value = v, expiresAt = now + ttl\<rparr>
                 (tl (pc_cache s))
           \<and> pc_evictions (pc_set P now b v s) = pc_evictions s + 1
           \<and> int (jm_size (pc_cache (pc_set P now b v s))) \<le> maxSize
           \<and> (generateKey P b \<noteq> fst (hd (pc_cache s)) \<longrightarrow>
                jm_get (pc_cache (pc_set P now b v s)) (fst (hd (pc_cache s))) = None)"
    if c: "body_length b \<le> MAX_CACHEABLE_SIZE" and full: "int (jm_size (pc_cache s)) = maxSize"
    for now b v
  proof -
    from full assms(1) have "pc_cache s \<noteq> []"
      by (auto simp: jm_size_def)
    then obtain k0 e0 rest where cache: "pc_cache s = (k0, e0) # rest"
      by (cases "pc_cache s") auto
    have eq: "pc_set P now b v s =
           s\<lparr>pc_cache := jm_set (generateKey P b)
                            \<lparr>entry_value = v, expiresAt = now + pc_ttl s\<rparr> rest,
             pc_evictions := pc_evictions s + 1\<rparr>"
      using pc_set_full [OF wf c _ cache] full M by simp
    have "k0 \<notin> set (jm_keys rest)"
      using wf cache by (simp add: jm_wf_def jm_keys_def)
    then have gone: "jm_get rest k0 = None"
      by (simp add: jm_get_None_iff)
    have "pc_inv maxSize (pc_set P now b v s)"
      by (rule pc_inv_set [OF assms(1) inv])
    then have "int (jm_size (pc_cache (pc_set P now b v s))) \<le> maxSize"
      by (simp add: pc_inv_def)
    then show ?thesis
      using gone by (simp add: eq cache ttl jm_get_set)
  qed
  have read: "pc_cache (pc_set P now b v (snd (pc_get P t b0 s))) = pc_cache (pc_set P now b v s)
           \<and> pc_evictions (pc_set P now b v (snd (pc_get P t b0 s)))
               = pc_evictions (pc_set P now b v s)"
    if hit: "fst (pc_get P t b0 s) = Some x" for t b0 x now b v
    using pc_get_hit_cache [OF hit]
    by (simp add: pc_set_def Let_def)
  have over: "fst (pc_get P t (hd bs) (insert_all P clock val bs (new_ParseCache ttl maxSize)))
             = Some (val (hd bs))
           \<and> jm_keys (pc_cache (pc_set P now b v
                (snd (pc_get P t (hd bs) (insert_all P clock val bs (new_ParseCache ttl maxSize))))))
               = map (generateKey P) (tl bs @ [b])
           \<and> pc_evictions (pc_set P now b v
                (snd (pc_get P t (hd bs) (insert_all P clock val bs (new_ParseCache ttl maxSize)))))
               = 1"
    if "int (length bs) = maxSize" "distinct (map (generateKey P) (bs @ [b]))"
      "\<forall>x \<in> set (bs @ [b]). body_length x \<le> MAX_CACHEABLE_SIZE"
      "\<not> t > clock (hd bs) + ttl"
    for bs b and clock and val :: "body \<Rightarrow> 'v" and t now v
    using pc_overflow_first_inserted
            [where s = "insert_all P clock val bs (new_ParseCache ttl maxSize)"
               and M = maxSize and P = P and clock = clock and val = val and bs = bs
               and ttl = ttl and b = b and t = t and now = now and v = v]
          assms(1) that
    by simp
  from bound evict read over show ?thesis by blast
qed

theorem C2_bounded_fifo_eviction_witness:
  "(1::int) \<le> 2
   \<and> example_cache
        = pc_run example_platform [Set 0 (Str ''a'') 1, Set 1 (Str ''b'') 2] (new_ParseCache 60000 2)
   \<and> body_length (Str ''c'') \<le> MAX_CACHEABLE_SIZE
   \<and> int (jm_size (pc_cache example_cache)) = 2
   \<and> fst (pc_get example_platform 5 (Str ''a'') example_cache) = Some 1
   \<and> pc_cache (pc_set example_platform 6 (Str ''c'') 3
               (snd (pc_get example_platform 5 (Str ''a'') example_cache)))
        = [(''b'', \<lparr>entry_value = 2, expiresAt = 60001\<rparr>),
           (''c'', \<lparr>entry_value = 3, expiresAt = 60006\<rparr>)]
   \<and> pc_evictions (pc_set example_platform 6 (Str ''c'') 3
               (snd (pc_get example_platform 5 (Str ''a'') example_cache))) = 1
   \<and> distinct (map (generateKey example_platform) ([Str ''a'', Str ''b''] @ [Str ''c'']))
   \<and> jm_keys (pc_cache (pc_set example_platform 6 (Str ''c'') 3
               (snd (pc_get example_platform 5 (Str ''a'')
                  (insert_all example_platform (\<lambda>b. 0) (\<lambda>b. 7::nat) [Str ''a'', Str ''b'']
                     (new_ParseCache 60000 2))))))
        = [''b'', ''c'']"
proof -
  have one: "(1::int) \<le> 2" by simp
  note inst = C2_bounded_fifo_eviction
                [where maxSize = 2 and s = example_cache and P = example_platform and ttl = 60000,
                 OF one example_cache_def]
  have small: "body_length (Str ''c'') \<le> MAX_CACHEABLE_SIZE"
    by (simp add: MAX_CACHEABLE_SIZE_def)
  have full: "int (jm_size (pc_cache example_cache)) = 2"
    by (simp add: example_cache_eq jm_size_def)
  have hit: "fst (pc_get example_platform 5 (Str ''a'') example_cache) = Some 1"
    by (simp add: example_cache_eq pc_get_def MAX_CACHEABLE_SIZE_def)
  have a: "pc_cache (pc_set example_platform 6 (Str ''c'') 3 example_cache)
             = jm_set (generateKey example_platform (Str ''c''))
                 \<lparr>entry_value = 3, expiresAt = 6 + 60000\<rparr> (tl (pc_cache example_cache))
           \<and> pc_evictions (pc_set example_platform 6 (Str ''c'') 3 example_cache)
               = pc_evictions example_cache + 1"
    using inst [THEN conjunct2, THEN conjunct1, rule_format, of "Str ''c''" 6 3] small full
    by simp
  have b: "pc_cache (pc_set example_platform 6 (Str ''c'') 3
                      (snd (pc_get example_platform 5 (Str ''a'') example_cache)))
             = pc_cache (pc_set example_platform 6 (Str ''c'') 3 example_cache)
           \<and> pc_evictions (pc_set example_platform 6 (Str ''c'') 3
                      (snd (pc_get example_platform 5 (Str ''a'') example_cache)))
               = pc_evictions (pc_set example_platform 6 (Str ''c'') 3 example_cache)"
    using inst [THEN conjunct2, THEN conjunct2, THEN conjunct1, rule_format,
                of 5 "Str ''a''" 1 6 "Str ''c''" 3] hit
    by simp
  have c: "jm_set (generateKey example_platform (Str ''c''))
                 \<lparr>entry_value = 3, expiresAt = 6 + 60000\<rparr> (tl (pc_cache example_cache))
        = [(''b'', \<lparr>entry_value = 2, expiresAt = 60001\<rparr>),
           (''c'', \<lparr>entry_value = 3::nat, expiresAt = 60006\<rparr>)]"
    by (simp add: example_cache_eq)
  have d: "pc_evictions example_cache = 0"
    by (simp add: example_cache_eq)
  have e: "example_cache
        = pc_run example_platform [Set 0 (Str ''a'') 1, Set 1 (Str ''b'') 2] (new_ParseCache 60000 2)"
    by (rule example_cache_def)
  from a b c d have f: "pc_cache (pc_set example_platform 6 (Str ''c'') 3
               (snd (pc_get example_platform 5 (Str ''a'') example_cache)))
        = [(''b'', \<lparr>entry_value = 2, expiresAt = 60001\<rparr>),
           (''c'', \<lparr>entry_value = 3, expiresAt = 60006\<rparr>)]
     \<and> pc_evictions (pc_set example_platform 6 (Str ''c'') 3
               (snd (pc_get example_platform 5 (Str ''a'') example_cache))) = 1"
    by simp
  have dist: "distinct (map (generateKey example_platform) ([Str ''a'', Str ''b''] @ [Str ''c'']))"
    by simp
  have cacheable: "\<forall>x \<in> set ([Str ''a'', Str ''b''] @ [Str ''c'']). body_length x \<le> MAX_CACHEABLE_SIZE"
    by (simp add: MAX_CACHEABLE_SIZE_def)
  have g: "jm_keys (pc_cache (pc_set example_platform 6 (Str ''c'') 3
               (snd (pc_get example_platform 5 (Str ''a'')
                  (insert_all example_platform (\<lambda>b. 0) (\<lambda>b. 7::nat) [Str ''a'', Str ''b'']
                     (new_ParseCache 60000 2))))))
        = [''b'', ''c'']"
    using inst [THEN conjunct2, THEN conjunct2, THEN conjunct2, rule_format,
                of "[Str ''a'', Str ''b'']" "Str ''c''" "\<lambda>b. 0" 5 "\<lambda>b. 7::nat" 6 3]
      dist cacheable
    by simp
  from one e small full hit f dist g show ?thesis
    by blast
qed

section \<open>Eviction comes before the key\<close>



section \<open>Facts about the content-type cache\<close>

lemma ct_parse_failure:
  "jm_get (ct_cache s) header = None \<Longrightarrow> parser header = Inl failure \<Longrightarrow>
     ct_parse header parser s = (Inl failure, s\<lparr>ct_misses := ct_misses s + 1\<rparr>)"
  by (simp add: ct_parse_def)

lemma ct_parse_cache:
  "ct_cache (snd (ct_parse header parser s)) =
     (case jm_get (ct_cache s) header of
        Some cached \<Rightarrow> ct_cache s
      | None \<Rightarrow>
          (case parser header of
             Inl failure \<Rightarrow> ct_cache s
           | Inr parsed \<Rightarrow>
               if jm_size (ct_cache s) < CT_MAX_CACHE_SIZE
               then ct_cache s @ [(header, parsed)] else ct_cache s))"
proof (cases "jm_get (ct_cache s) header")
  case None
  then have "header \<notin> set (jm_keys (ct_cache s))"
    by (simp add: jm_get_None_iff)
  then have "jm_set header parsed (ct_cache s) = ct_cache s @ [(header, parsed)]" for parsed
    by (rule jm_set_append_new)
  then show ?thesis
    using None by (simp add: ct_parse_def Let_def split: sum.splits)
next
  case (Some cached)
  then show ?thesis by (simp add: ct_parse_def)
qed

lemma ct_inv_parse:
  assumes "ct_inv s"
  shows "ct_inv (snd (ct_parse header parser s))"
proof -
  have six: "length COMMON_TYPES \<le> length (ct_cache s)"
    using assms by (metis ct_inv_def length_take min.cobounded1)
  show ?thesis
    using assms six
    by (auto simp: ct_inv_def ct_parse_cache jm_wf_def jm_keys_def jm_size_def jm_get_None_iff
             split: option.splits sum.splits)
qed

lemma ct_inv_clear: "ct_inv (ct_clear s)"
  by (simp add: ct_inv_def ct_clear_def COMMON_TYPES_def jm_wf_def jm_keys_def jm_size_def
        CT_MAX_CACHE_SIZE_def)

lemma ct_inv_new: "ct_inv new_ContentTypeCache"
  by (simp add: ct_inv_def new_ContentTypeCache_def COMMON_TYPES_def jm_wf_def jm_keys_def
        jm_size_def CT_MAX_CACHE_SIZE_def)

lemma ct_inv_run: "ct_inv s \<Longrightarrow> ct_inv (ct_run ops s)"
proof (induction ops arbitrary: s)
  case Nil
  then show ?case by simp
next
  case (Cons x xs)
  have "ct_inv (ct_step x s)"
    using Cons.prems by (cases x) (simp_all add: ct_inv_parse ct_inv_clear)
  then show ?case using Cons.IH by simp
qed

lemma ct_inv_dynamic:
  assumes "ct_inv s"
  shows "ct_cache s = COMMON_TYPES @ dynamic_entries s"
proof -
  let ?n = "length COMMON_TYPES"
  have split: "ct_cache s = COMMON_TYPES @ drop ?n (ct_cache s)"
    using assms by (metis append_take_drop_id ct_inv_def)
  have "distinct (map fst (COMMON_TYPES @ drop ?n (ct_cache s)))"
    using assms split by (simp add: ct_inv_def jm_wf_def jm_keys_def)
  then have disj: "\<forall>x \<in> set (drop ?n (ct_cache s)). fst x \<notin> set (jm_keys COMMON_TYPES)"
    by (auto simp: jm_keys_def)
  have "dynamic_entries s
          = filter (\<lambda>x. fst x \<notin> set (jm_keys COMMON_TYPES)) COMMON_TYPES
            @ filter (\<lambda>x. fst x \<notin> set (jm_keys COMMON_TYPES)) (drop ?n (ct_cache s))"
    unfolding dynamic_entries_def by (subst split) simp
  also have "filter (\<lambda>x. fst x \<notin> set (jm_keys COMMON_TYPES)) COMMON_TYPES = []"
    by (auto simp: jm_keys_def filter_empty_conv)
  also have "filter (\<lambda>x. fst x \<notin> set (jm_keys COMMON_TYPES)) (drop ?n (ct_cache s))
               = drop ?n (ct_cache s)"
    using disj by (simp add: filter_id_conv)
  finally show ?thesis using split by simp
qed

section \<open>The seed and the capacity of the content-type cache\<close>

text \<open>
  C7, as the specification states it: the seeded entries do not count toward the
  capacity, so \<^verbatim>\<open>parse\<close> can store up to \<^verbatim>\<open>MAX_CACHE_SIZE\<close> = 50 dynamic entries next to
  the seed. The code compares the size of the whole map, seed included, with the maximum:
  when 45 new headers are parsed in turn on a new cache by a parser that accepts them all,
  44 are stored and the 45th is not.
\<close>

theorem C7_dynamic_capacity_counterexample:
  "length example_headers = 45 \<and> (45::nat) \<le> CT_MAX_CACHE_SIZE
   \<and> length (dynamic_entries
        (ct_run (map (\<lambda>h. Parse h accept_all) example_headers) new_ContentTypeCache)) = 44
   \<and> jm_get (ct_cache
        (ct_run (map (\<lambda>h. Parse h accept_all) example_headers) new_ContentTypeCache))
        ''s'' = None"
  by code_simp

text \<open>
  C7, amended: the seeded entries are permanent. After every sequence of \<^verbatim>\<open>parse\<close> and
  \<^verbatim>\<open>clear\<close> on a new cache the map is the six seeded entries, unchanged and in their
  place, followed by the dynamic entries, and after \<^verbatim>\<open>clear()\<close> it is exactly the seed.
  The seeded entries count toward the capacity: \<^verbatim>\<open>parse\<close> stores a new header only while
  the number of seeded and dynamic entries together is below the maximum of 50, so at
  most 44 dynamic entries are stored next to the seed.
\<close>

theorem C7_baseline_permanent_counts_toward_capacity:
  assumes "s = ct_run ops new_ContentTypeCache"
  shows "ct_cache (ct_clear s) = COMMON_TYPES
     \<and> ct_cache s = COMMON_TYPES @ dynamic_entries s
     \<and> length COMMON_TYPES = 6
     \<and> length COMMON_TYPES + length (dynamic_entries s) \<le> CT_MAX_CACHE_SIZE
     \<and> length (dynamic_entries s) \<le> 44
     \<and> (\<forall>header parser parsed.
          jm_get (ct_cache s) header = None \<and> parser header = Inr parsed \<longrightarrow>
          ct_cache (snd (ct_parse header parser s))
            = (if length COMMON_TYPES + length (dynamic_entries s) < CT_MAX_CACHE_SIZE
               then ct_cache s @ [(header, parsed)] else ct_cache s))"
proof -
  have inv: "ct_inv s"
    unfolding assms by (rule ct_inv_run [OF ct_inv_new])
  have dyn: "ct_cache s = COMMON_TYPES @ dynamic_entries s"
    by (rule ct_inv_dynamic [OF inv])
  have six: "length COMMON_TYPES = 6"
    by (simp add: COMMON_TYPES_def)
  have "jm_size (ct_cache s) = length COMMON_TYPES + length (dynamic_entries s)"
    unfolding jm_size_def by (subst dyn) simp
  then have size: "length COMMON_TYPES + length (dynamic_entries s) = jm_size (ct_cache s)"
    by simp
  have bound: "length COMMON_TYPES + length (dynamic_entries s) \<le> CT_MAX_CACHE_SIZE"
    using inv by (simp add: size ct_inv_def)
  then have b44: "length (dynamic_entries s) \<le> 44"
    by (simp add: six CT_MAX_CACHE_SIZE_def)
  have store: "ct_cache (snd (ct_parse header parser s))
            = (if length COMMON_TYPES + length (dynamic_entries s) < CT_MAX_CACHE_SIZE
               then ct_cache s @ [(header, parsed)] else ct_cache s)"
    if "jm_get (ct_cache s) header = None" "parser header = Inr parsed"
    for header and parser :: "string \<Rightarrow> 'b + content_type" and parsed
    using that by (simp add: ct_parse_cache size)
  have clear: "ct_cache (ct_clear s) = COMMON_TYPES"
    by (simp add: ct_clear_def)
  from clear dyn six bound b44 store show ?thesis by blast
qed

theorem C7_baseline_permanent_counts_toward_capacity_witness:
  "ct_cache (ct_run [Parse ''text/html'' accept_all] new_ContentTypeCache)
     = COMMON_TYPES @ [(''text/html'', \<lparr>ct_type = ''text/html'', ct_parameters = []\<rparr>)]
   \<and> ct_cache (ct_clear (ct_run [Parse ''text/html'' accept_all] new_ContentTypeCache))
       = COMMON_TYPES
   \<and> dynamic_entries (ct_run [Parse ''text/html'' accept_all] new_ContentTypeCache)
       = [(''text/html'', \<lparr>ct_type = ''text/html'', ct_parameters = []\<rparr>)]"
proof -
  let ?s = "ct_run [Parse ''text/html'' accept_all] new_ContentTypeCache"
  note inst = C7_baseline_permanent_counts_toward_capacity [OF refl, of "[Parse ''text/html'' accept_all]"]
  have a: "ct_cache ?s
     = COMMON_TYPES @ [(''text/html'', \<lparr>ct_type = ''text/html'', ct_parameters = []\<rparr>)]"
    by (simp add: ct_parse_def new_ContentTypeCache_def COMMON_TYPES_def accept_all_def
          jm_size_def CT_MAX_CACHE_SIZE_def)
  from inst have b: "ct_cache ?s = COMMON_TYPES @ dynamic_entries ?s"
    and c: "ct_cache (ct_clear ?s) = COMMON_TYPES"
    by blast+
  from a b have "dynamic_entries ?s
       = [(''text/html'', \<lparr>ct_type = ''text/html'', ct_parameters = []\<rparr>)]"
    by simp
  with a c show ?thesis by simp
qed

section \<open>A parser that fails\<close>

text \<open>
  C8: for every header that is not a key of the cache and every parser that fails on
  that header, \<^verbatim>\<open>parse(header, parser)\<close> fails with the parser's own failure, the map is
  unchanged, and the header is still not a key of the map afterwards.
\<close>

theorem C8_parser_failure_propagates_uncached:
  "jm_get (ct_cache s) header = None \<Longrightarrow> parser header = Inl failure \<Longrightarrow>
     fst (ct_parse header parser s) = Inl failure
     \<and> ct_cache (snd (ct_parse header parser s)) = ct_cache s
     \<and> jm_get (ct_cache (snd (ct_parse header parser s))) header = None"
  by (simp add: ct_parse_failure)

theorem C8_parser_failure_propagates_uncached_witness:
  "jm_get (ct_cache new_ContentTypeCache) ''bogus'' = None
   \<and> reject_all ''bogus'' = Inl ''invalid media type''
   \<and> fst (ct_parse ''bogus'' reject_all new_ContentTypeCache) = Inl ''invalid media type''
   \<and> ct_cache (snd (ct_parse ''bogus'' reject_all new_ContentTypeCache)) = COMMON_TYPES"
  using C8_parser_failure_propagates_uncached
          [where s = new_ContentTypeCache and header = "''bogus''" and parser = reject_all
             and failure = "''invalid media type''"]
  by (simp add: new_ContentTypeCache_def COMMON_TYPES_def reject_all_def)

text \<open>
  C10: the miss counter is incremented before the parser is called, so for every header
  that is not a key of the cache and every parser that fails on it, the miss counter
  has grown by one although nothing is returned or stored.
\<close>

theorem C10_miss_counted_before_parser:
  "jm_get (ct_cache s) header = None \<Longrightarrow> parser header = Inl failure \<Longrightarrow>
     ct_misses (snd (ct_parse header parser s)) = ct_misses s + 1
     \<and> st_misses (ct_stats (snd (ct_parse header parser s))) = st_misses (ct_stats s) + 1
     \<and> ct_hits (snd (ct_parse header parser s)) = ct_hits s
     \<and> fst (ct_parse header parser s) = Inl failure
     \<and> ct_cache (snd (ct_parse header parser s)) = ct_cache s"
  by (simp add: ct_parse_failure ct_stats_def)

theorem C10_miss_counted_before_parser_witness:
  "jm_get (ct_cache new_ContentTypeCache) ''bogus'' = None
   \<and> reject_all ''bogus'' = Inl ''invalid media type''
   \<and> ct_misses new_ContentTypeCache = 0
   \<and> ct_misses (snd (ct_parse ''bogus'' reject_all new_ContentTypeCache)) = 1"
  using C10_miss_counted_before_parser
          [where s = new_ContentTypeCache and header = "''bogus''" and parser = reject_all
             and failure = "''invalid media type''"]
  by (simp add: new_ContentTypeCache_def COMMON_TYPES_def reject_all_def)

section \<open>Facts about buffers and the pool\<close>

lemma first_fit_Some:
  "first_fit sz pool = Some (buf, rest) \<Longrightarrow>
     buf \<in> set pool \<and> int (buf_length buf) \<ge> sz \<and> set rest \<subseteq> set pool
     \<and> length pool = Suc (length rest)"
  by (induction pool arbitrary: buf rest)
     (auto split: if_splits option.splits)

lemma first_fit_None:
  "first_fit sz pool = None \<longleftrightarrow> (\<forall>b \<in> set pool. int (buf_length b) < sz)"
  by (induction pool) (auto split: option.splits)

lemma all_zero_replicate: "all_zero bs \<longleftrightarrow> bs = replicate (length bs) 0"
  by (induction bs) (auto simp: all_zero_def)

lemma all_zero_take: "all_zero bs \<Longrightarrow> all_zero (take n bs)"
  unfolding all_zero_def list_all_iff by (auto dest: in_set_takeD)

lemma all_zero_nth: "all_zero bs \<longleftrightarrow> (\<forall>i < length bs. bs ! i = 0)"
  by (simp add: all_zero_def list_all_length)

lemma buffer_bytes_length:
  "valid_buffer m b \<Longrightarrow> length (buffer_bytes m b) = buf_length b"
  by (auto simp: valid_buffer_def buffer_bytes_def)

lemma buffer_bytes_nth:
  "valid_buffer m b \<Longrightarrow> i < buf_length b \<Longrightarrow>
     buffer_bytes m b ! i = m ! buf_block b ! (buf_offset b + i)"
  by (auto simp: valid_buffer_def buffer_bytes_def)

lemma zeroed_iff:
  "valid_buffer m b \<Longrightarrow>
     all_zero (buffer_bytes m b)
       \<longleftrightarrow> (\<forall>i < buf_length b. m ! buf_block b ! (buf_offset b + i) = 0)"
  by (simp add: all_zero_nth buffer_bytes_length buffer_bytes_nth)

lemma fill_zero_length: "length (fill_zero b m) = length m"
  by (simp add: fill_zero_def Let_def)

lemma fill_zero_block_length:
  "valid_buffer m b \<Longrightarrow> blk < length m \<Longrightarrow> length (fill_zero b m ! blk) = length (m ! blk)"
  by (auto simp: fill_zero_def Let_def valid_buffer_def nth_list_update)

lemma fill_zero_nth:
  assumes "valid_buffer m b" "blk < length m" "i < length (m ! blk)"
  shows "fill_zero b m ! blk ! i = (if covers b blk i then 0 else m ! blk ! i)"
proof (cases "blk = buf_block b")
  case False
  then show ?thesis using assms by (simp add: fill_zero_def Let_def covers_def)
next
  case True
  let ?d = "m ! buf_block b"
  let ?o = "buf_offset b"
  let ?n = "buf_length b"
  have le: "?o + ?n \<le> length ?d" using assms(1) by (simp add: valid_buffer_def)
  have "fill_zero b m ! blk = take ?o ?d @ replicate ?n 0 @ drop (?o + ?n) ?d"
    using assms(2) True by (simp add: fill_zero_def Let_def)
  moreover have "(take ?o ?d @ replicate ?n 0 @ drop (?o + ?n) ?d) ! i
                   = (if ?o \<le> i \<and> i < ?o + ?n then 0 else ?d ! i)"
    using le assms(3) True by (auto simp: nth_append min_def)
  ultimately show ?thesis using True by (simp add: covers_def)
qed

lemma valid_fill_zero:
  assumes "valid_buffer m b" "valid_buffer m c"
  shows "valid_buffer (fill_zero b m) c"
proof -
  have blk: "buf_block c < length m" using assms(2) by (simp add: valid_buffer_def)
  have "length (fill_zero b m ! buf_block c) = length (m ! buf_block c)"
    by (rule fill_zero_block_length [OF assms(1) blk])
  then show ?thesis
    using assms(2) by (simp add: valid_buffer_def fill_zero_length)
qed

lemma zeroed_fill_zero_self:
  assumes "valid_buffer m b"
  shows "all_zero (buffer_bytes (fill_zero b m) b)"
proof -
  have v: "valid_buffer (fill_zero b m) b" by (rule valid_fill_zero [OF assms assms])
  have "fill_zero b m ! buf_block b ! (buf_offset b + i) = 0" if "i < buf_length b" for i
    using fill_zero_nth [OF assms, of "buf_block b" "buf_offset b + i"] assms that
    by (simp add: valid_buffer_def covers_def)
  then show ?thesis by (simp add: zeroed_iff [OF v])
qed

lemma zeroed_fill_zero_other:
  assumes "valid_buffer m b" "valid_buffer m c" "all_zero (buffer_bytes m c)"
  shows "all_zero (buffer_bytes (fill_zero b m) c)"
proof -
  have v: "valid_buffer (fill_zero b m) c" by (rule valid_fill_zero [OF assms(1,2)])
  have "fill_zero b m ! buf_block c ! (buf_offset c + i) = 0" if "i < buf_length c" for i
  proof -
    have "m ! buf_block c ! (buf_offset c + i) = 0"
      using assms(2,3) that by (simp add: zeroed_iff)
    then show ?thesis
      using fill_zero_nth [OF assms(1), of "buf_block c" "buf_offset c + i"] assms(2) that
      by (simp add: valid_buffer_def)
  qed
  then show ?thesis by (simp add: zeroed_iff [OF v])
qed

lemma mem_write_length: "length (mem_write blk i x m) = length m"
  by (simp add: mem_write_def)

lemma mem_write_nth:
  "c < length m \<Longrightarrow>
     mem_write blk i x m ! c = (if c = blk then (m ! blk)[i := x] else m ! c)"
  by (simp add: mem_write_def nth_list_update)

lemma valid_write:
  "valid_buffer m c \<Longrightarrow> valid_buffer (mem_write blk i x m) c"
  by (auto simp: valid_buffer_def mem_write_length mem_write_nth)

lemma bytes_write:
  assumes "valid_buffer m c" "\<not> covers c blk i"
  shows "buffer_bytes (mem_write blk i x m) c = buffer_bytes m c"
proof (rule nth_equalityI)
  show "length (buffer_bytes (mem_write blk i x m) c) = length (buffer_bytes m c)"
    using assms(1) by (simp add: buffer_bytes_length valid_write)
next
  fix j assume "j < length (buffer_bytes (mem_write blk i x m) c)"
  then have j: "j < buf_length c"
    using assms(1) by (simp add: buffer_bytes_length valid_write)
  have "mem_write blk i x m ! buf_block c ! (buf_offset c + j) = m ! buf_block c ! (buf_offset c + j)"
    using assms j by (auto simp: mem_write_nth covers_def valid_buffer_def)
  then show "buffer_bytes (mem_write blk i x m) c ! j = buffer_bytes m c ! j"
    using assms(1) j by (simp add: buffer_bytes_nth valid_write)
qed

lemma slice0_fields:
  "buf_block (slice0 b e) = buf_block b \<and> buf_offset (slice0 b e) = buf_offset b
   \<and> buf_length (slice0 b e) \<le> buf_length b"
  by (auto simp: slice0_def Let_def)

lemma slice0_length:
  "e < int (buf_length b) \<Longrightarrow> int (buf_length (slice0 b e)) \<ge> e"
  by (auto simp: slice0_def Let_def)

lemma valid_slice0: "valid_buffer m b \<Longrightarrow> valid_buffer m (slice0 b e)"
  using slice0_fields [of b e] by (simp add: valid_buffer_def)

lemma bytes_slice0:
  "buffer_bytes m (slice0 b e) = take (buf_length (slice0 b e)) (buffer_bytes m b)"
  using slice0_fields [of b e] by (simp add: buffer_bytes_def min_def)


lemma first_fit_split:
  "first_fit sz pool = Some (buf, rest) \<Longrightarrow>
     \<exists>pre post. pool = pre @ buf # post \<and> rest = pre @ post"
proof (induction pool arbitrary: buf rest)
  case Nil
  then show ?case by simp
next
  case (Cons b bs)
  show ?case
  proof (cases "int (buf_length b) \<ge> sz")
    case True
    then have "buf = b" "rest = bs" using Cons.prems by simp_all
    then have "b # bs = [] @ buf # bs \<and> rest = [] @ bs" by simp
    then show ?thesis by blast
  next
    case False
    then obtain rest' where ff: "first_fit sz bs = Some (buf, rest')" and r: "rest = b # rest'"
      using Cons.prems by (auto split: option.splits)
    from Cons.IH [OF ff] obtain pre post where "bs = pre @ buf # post" "rest' = pre @ post"
      by blast
    then have "b # bs = (b # pre) @ buf # post \<and> rest = (b # pre) @ post"
      using r by simp
    then show ?thesis by blast
  qed
qed

lemma disjoint_sym: "disjoint a b \<Longrightarrow> disjoint b a"
  by (auto simp: disjoint_def)

lemma disjoint_covers: "disjoint a b \<Longrightarrow> covers a blk i \<Longrightarrow> \<not> covers b blk i"
  by (auto simp: disjoint_def covers_def)

lemma disjoint_slice0: "disjoint b c \<Longrightarrow> disjoint (slice0 b e) c"
  using slice0_fields [of b e] by (auto simp: disjoint_def)

lemma separate_append:
  "separate (xs @ ys) \<longleftrightarrow>
     separate xs \<and> separate ys \<and> (\<forall>a \<in> set xs. \<forall>b \<in> set ys. disjoint a b)"
  by (induction xs) (auto simp: list_all_iff)

lemma separate_Cons:
  "separate (b # bs) \<longleftrightarrow> (\<forall>c \<in> set bs. disjoint b c) \<and> separate bs"
  by (simp add: list_all_iff)

lemma separate_remove1: "separate xs \<Longrightarrow> separate (remove1 b xs)"
proof (induction xs)
  case Nil
  then show ?case by simp
next
  case (Cons x xs)
  then show ?case
    using set_remove1_subset [of b xs] by (auto simp: list_all_iff)
qed

lemma separate_remove1_disjoint:
  "separate xs \<Longrightarrow> b \<in> set xs \<Longrightarrow> \<forall>c \<in> set (remove1 b xs). disjoint b c"
proof (induction xs)
  case Nil
  then show ?case by simp
next
  case (Cons x xs)
  show ?case
  proof (cases "x = b")
    case True
    then show ?thesis using Cons.prems(1) by (simp add: list_all_iff)
  next
    case False
    then have mem: "b \<in> set xs" using Cons.prems(2) by simp
    have "disjoint x b" using Cons.prems(1) mem by (simp add: list_all_iff)
    then have "disjoint b x" by (rule disjoint_sym)
    moreover have "\<forall>c \<in> set (remove1 b xs). disjoint b c"
      using Cons.IH Cons.prems(1) mem by simp
    ultimately show ?thesis using False by simp
  qed
qed

lemma separate_middle:
  "separate (pre @ b # post) \<Longrightarrow>
     separate (pre @ post) \<and> (\<forall>c \<in> set (pre @ post). disjoint b c)"
  by (auto simp: separate_append list_all_iff intro: disjoint_sym)

lemma acquire_hit:
  "\<not> sz > int (POOL_SIZE * 2) \<Longrightarrow> first_fit sz (bp_pool (snd w)) = Some (buf, rest) \<Longrightarrow>
     acquire L junk sz w =
       (Inr (if int (buf_length buf) = sz then buf else slice0 buf sz),
        fst w, (snd w)\<lparr>bp_pool := rest, bp_hits := bp_hits (snd w) + 1\<rparr>)"
  by (simp add: acquire_def Let_def)

lemma acquire_alloc_ok:
  assumes "sz > int (POOL_SIZE * 2) \<or> first_fit sz (bp_pool (snd w)) = None"
    and "n = (if sz > int (POOL_SIZE * 2) then sz else max sz (int POOL_SIZE))"
    and "0 \<le> n" "n \<le> L"
  shows "acquire L junk sz w =
       (Inr \<lparr>buf_block = length (fst w), buf_offset = 0, buf_length = nat n\<rparr>,
        fst w @ [map junk [0..<nat n]],
        (snd w)\<lparr>bp_misses := bp_misses (snd w) + 1\<rparr>)"
  using assms by (auto simp: acquire_def allocUnsafe_def Let_def)

lemma acquire_alloc_fails:
  assumes "sz > int (POOL_SIZE * 2) \<or> first_fit sz (bp_pool (snd w)) = None"
    and "n = (if sz > int (POOL_SIZE * 2) then sz else max sz (int POOL_SIZE))"
    and "n > L"
  shows "acquire L junk sz w =
       (Inl ERR_OUT_OF_RANGE, fst w, (snd w)\<lparr>bp_misses := bp_misses (snd w) + 1\<rparr>)"
  using assms by (auto simp: acquire_def allocUnsafe_def Let_def)

lemma acquire_cases:
  obtains
    (hit) buf rest where "\<not> sz > int (POOL_SIZE * 2)"
      "first_fit sz (bp_pool (snd w)) = Some (buf, rest)"
      "acquire L junk sz w =
         (Inr (if int (buf_length buf) = sz then buf else slice0 buf sz),
          fst w, (snd w)\<lparr>bp_pool := rest, bp_hits := bp_hits (snd w) + 1\<rparr>)"
  | (fresh) n where "\<not> from_pool sz (snd w)" "0 \<le> n" "n \<le> L" "sz \<le> n"
      "n = (if sz > int (POOL_SIZE * 2) then sz else max sz (int POOL_SIZE))"
      "acquire L junk sz w =
         (Inr \<lparr>buf_block = length (fst w), buf_offset = 0, buf_length = nat n\<rparr>,
          fst w @ [map junk [0..<nat n]],
          (snd w)\<lparr>bp_misses := bp_misses (snd w) + 1\<rparr>)"
  | (fail) "\<not> from_pool sz (snd w)"
      "(if sz > int (POOL_SIZE * 2) then sz else max sz (int POOL_SIZE)) > L"
      "acquire L junk sz w =
         (Inl ERR_OUT_OF_RANGE, fst w, (snd w)\<lparr>bp_misses := bp_misses (snd w) + 1\<rparr>)"
proof (cases "\<not> sz > int (POOL_SIZE * 2) \<and> first_fit sz (bp_pool (snd w)) \<noteq> None")
  case True
  then obtain buf rest where ff: "first_fit sz (bp_pool (snd w)) = Some (buf, rest)"
    by auto
  from True have small: "\<not> sz > int (POOL_SIZE * 2)" by simp
  show ?thesis
    by (rule hit [OF small ff acquire_hit [OF small ff]])
next
  case False
  let ?n = "if sz > int (POOL_SIZE * 2) then sz else max sz (int POOL_SIZE)"
  have alloc: "sz > int (POOL_SIZE * 2) \<or> first_fit sz (bp_pool (snd w)) = None"
    using False by auto
  have nfp: "\<not> from_pool sz (snd w)" using False by (simp add: from_pool_def)
  have nn: "0 \<le> ?n" "sz \<le> ?n" by auto
  show ?thesis
  proof (cases "?n \<le> L")
    case True
    show ?thesis
      by (rule fresh [OF nfp nn(1) True nn(2) refl acquire_alloc_ok [OF alloc refl nn(1) True]])
  next
    case nope: False
    then have gt: "?n > L" by simp
    show ?thesis
      by (rule fail [OF nfp gt acquire_alloc_fails [OF alloc refl gt]])
  qed
qed

lemma pool_inv_iff:
  "pool_inv (held, m, p) \<longleftrightarrow>
     (\<forall>b \<in> set held \<union> set (bp_pool p). valid_buffer m b)
     \<and> separate held \<and> separate (bp_pool p)
     \<and> (\<forall>a \<in> set held. \<forall>b \<in> set (bp_pool p). disjoint a b)
     \<and> (\<forall>b \<in> set (bp_pool p). all_zero (buffer_bytes m b))"
  by (auto simp: pool_inv_def list_all_iff separate_append)

lemma valid_append: "valid_buffer m c \<Longrightarrow> valid_buffer (m @ [d]) c"
  by (simp add: valid_buffer_def nth_append)

lemma bytes_append: "valid_buffer m c \<Longrightarrow> buffer_bytes (m @ [d]) c = buffer_bytes m c"
  by (simp add: valid_buffer_def buffer_bytes_def nth_append)

lemma fresh_valid:
  "valid_buffer (m @ [map junk [0..<n]]) \<lparr>buf_block = length m, buf_offset = 0, buf_length = n\<rparr>"
  by (simp add: valid_buffer_def)

lemma fresh_disjoint:
  "valid_buffer m c \<Longrightarrow>
     disjoint c \<lparr>buf_block = length m, buf_offset = 0, buf_length = n\<rparr>"
  by (simp add: valid_buffer_def disjoint_def)

lemma pool_inv_acquire:
  assumes "pool_inv (held, w)"
  shows "pool_inv (pool_step L (Acquire junk sz) (held, w))"
proof -
  obtain m p where w: "w = (m, p)" by (cases w)
  from assms have valid: "\<forall>b \<in> set held \<union> set (bp_pool p). valid_buffer m b"
    and sh: "separate held" and sp: "separate (bp_pool p)"
    and cross: "\<forall>a \<in> set held. \<forall>b \<in> set (bp_pool p). disjoint a b"
    and zero: "\<forall>b \<in> set (bp_pool p). all_zero (buffer_bytes m b)"
    by (simp_all add: w pool_inv_iff)
  show ?thesis
  proof (cases rule: acquire_cases [of sz w L junk])
    case (hit buf rest)
    let ?r = "if int (buf_length buf) = sz then buf else slice0 buf sz"
    from first_fit_split [OF hit(2)] obtain pre post
      where pool: "bp_pool p = pre @ buf # post" and rest: "rest = pre @ post"
      by (auto simp: w)
    have sub: "set rest \<subseteq> set (bp_pool p)" and mem: "buf \<in> set (bp_pool p)"
      using pool rest by auto
    have sr: "separate rest" and br: "\<forall>c \<in> set rest. disjoint buf c"
      using separate_middle [of pre buf post] sp pool rest by simp_all
    have vr: "valid_buffer m ?r"
      using valid mem by (simp add: valid_slice0)
    have rr: "\<forall>c \<in> set rest. disjoint ?r c"
      using br by (simp add: disjoint_slice0)
    have hr: "\<forall>a \<in> set held. disjoint a ?r"
    proof
      fix a assume "a \<in> set held"
      then have "disjoint buf a" using cross mem by (auto intro: disjoint_sym)
      then have "disjoint ?r a" by (simp add: disjoint_slice0)
      then show "disjoint a ?r" by (rule disjoint_sym)
    qed
    have "separate (held @ [?r])"
      using sh hr by (simp add: separate_append)
    moreover have "\<forall>a \<in> set (held @ [?r]). \<forall>b \<in> set rest. disjoint a b"
      using cross sub rr by auto
    moreover have "\<forall>b \<in> set (held @ [?r]) \<union> set rest. valid_buffer m b"
      using valid sub vr by auto
    moreover have "\<forall>b \<in> set rest. all_zero (buffer_bytes m b)"
      using zero sub by auto
    ultimately have "pool_inv (held @ [?r], m, p\<lparr>bp_pool := rest, bp_hits := bp_hits p + 1\<rparr>)"
      using sr by (simp add: pool_inv_iff)
    then show ?thesis
      using hit(3) by (simp add: w)
  next
    case (fresh n)
    let ?b = "\<lparr>buf_block = length m, buf_offset = 0, buf_length = nat n\<rparr>"
    let ?m = "m @ [map junk [0..<nat n]]"
    have "separate (held @ [?b])"
      using sh valid by (simp add: separate_append fresh_disjoint)
    moreover have "\<forall>a \<in> set (held @ [?b]). \<forall>b \<in> set (bp_pool p). disjoint a b"
      using cross valid by (auto intro: disjoint_sym fresh_disjoint)
    moreover have "\<forall>b \<in> set (held @ [?b]) \<union> set (bp_pool p). valid_buffer ?m b"
      using valid by (auto simp: valid_append fresh_valid)
    moreover have "\<forall>b \<in> set (bp_pool p). all_zero (buffer_bytes ?m b)"
      using zero valid by (simp add: bytes_append)
    ultimately have "pool_inv (held @ [?b], ?m, p\<lparr>bp_misses := bp_misses p + 1\<rparr>)"
      using sp by (simp add: pool_inv_iff)
    then show ?thesis
      using fresh(6) by (simp add: w)
  next
    case fail
    have "pool_inv (held, m, p\<lparr>bp_misses := bp_misses p + 1\<rparr>)"
      using valid sh sp cross zero by (simp add: pool_inv_iff)
    then show ?thesis
      using fail(3) by (simp add: w)
  qed
qed

lemma pool_inv_release:
  assumes "pool_inv (held, w)" "b \<in> set held"
  shows "pool_inv (pool_step L (Release b) (held, w))"
proof -
  obtain m p where w: "w = (m, p)" by (cases w)
  from assms have valid: "\<forall>b \<in> set held \<union> set (bp_pool p). valid_buffer m b"
    and sh: "separate held" and sp: "separate (bp_pool p)"
    and cross: "\<forall>a \<in> set held. \<forall>b \<in> set (bp_pool p). disjoint a b"
    and zero: "\<forall>b \<in> set (bp_pool p). all_zero (buffer_bytes m b)"
    by (simp_all add: w pool_inv_iff)
  have sub: "set (remove1 b held) \<subseteq> set held" by (rule set_remove1_subset)
  have sh': "separate (remove1 b held)" using sh by (rule separate_remove1)
  have vb: "valid_buffer m b" using valid assms(2) by simp
  show ?thesis
  proof (cases "buf_length b \<le> POOL_SIZE * 2 \<and> length (bp_pool p) < MAX_POOL_ENTRIES")
    case False
    have "pool_inv (remove1 b held, m, p)"
      using valid sh' sp cross zero sub by (auto simp: pool_inv_iff)
    then show ?thesis using False by (auto simp: w release_def Let_def)
  next
    case True
    let ?m = "fill_zero b m"
    have rb: "\<forall>c \<in> set (remove1 b held). disjoint c b"
      using separate_remove1_disjoint [OF sh assms(2)] by (auto intro: disjoint_sym)
    have pb: "\<forall>c \<in> set (bp_pool p). disjoint c b"
      using cross assms(2) by (auto intro: disjoint_sym)
    have "separate (bp_pool p @ [b])"
      using sp pb by (simp add: separate_append)
    moreover have "\<forall>a \<in> set (remove1 b held). \<forall>c \<in> set (bp_pool p @ [b]). disjoint a c"
      using cross sub rb by auto
    moreover have "\<forall>c \<in> set (remove1 b held) \<union> set (bp_pool p @ [b]). valid_buffer ?m c"
      using valid sub vb by (auto intro: valid_fill_zero)
    moreover have "\<forall>c \<in> set (bp_pool p @ [b]). all_zero (buffer_bytes ?m c)"
      using zero valid vb by (auto intro: zeroed_fill_zero_self zeroed_fill_zero_other)
    ultimately have "pool_inv (remove1 b held, ?m, p\<lparr>bp_pool := bp_pool p @ [b]\<rparr>)"
      using sh' by (simp add: pool_inv_iff)
    then show ?thesis using True by (simp add: w release_def Let_def)
  qed
qed

lemma pool_inv_clear:
  assumes "pool_inv (held, w)"
  shows "pool_inv (pool_step L ClearPool (held, w))"
  using assms by (cases w) (simp add: pool_inv_iff bp_clear_def)

lemma pool_inv_write:
  assumes "pool_inv (held, w)" "b \<in> set held"
  shows "pool_inv (pool_step L (Write b i x) (held, w))"
proof -
  obtain m p where w: "w = (m, p)" by (cases w)
  from assms have valid: "\<forall>b \<in> set held \<union> set (bp_pool p). valid_buffer m b"
    and sh: "separate held" and sp: "separate (bp_pool p)"
    and cross: "\<forall>a \<in> set held. \<forall>b \<in> set (bp_pool p). disjoint a b"
    and zero: "\<forall>b \<in> set (bp_pool p). all_zero (buffer_bytes m b)"
    by (simp_all add: w pool_inv_iff)
  show ?thesis
  proof (cases "i < buf_length b")
    case False
    then show ?thesis using assms(1) by (simp add: w buffer_write_def)
  next
    case True
    let ?m = "mem_write (buf_block b) (buf_offset b + i) x m"
    have cb: "covers b (buf_block b) (buf_offset b + i)"
      using True by (simp add: covers_def)
    have free: "\<forall>c \<in> set (bp_pool p). \<not> covers c (buf_block b) (buf_offset b + i)"
      using cross assms(2) cb by (auto dest: disjoint_covers)
    have "\<forall>c \<in> set held \<union> set (bp_pool p). valid_buffer ?m c"
      using valid by (auto intro: valid_write)
    moreover have "\<forall>c \<in> set (bp_pool p). all_zero (buffer_bytes ?m c)"
      using zero valid free by (simp add: bytes_write)
    ultimately have "pool_inv (held, ?m, p)"
      using sh sp cross by (simp add: pool_inv_iff)
    then show ?thesis using True by (simp add: w buffer_write_def)
  qed
qed

lemma pool_inv_step:
  "pool_inv s \<Longrightarrow> allowed x (fst s) \<Longrightarrow> pool_inv (pool_step L x s)"
proof (cases x)
  case (Acquire junk sz)
  assume "pool_inv s"
  then show ?thesis using Acquire pool_inv_acquire [of "fst s" "snd s" L junk sz] by simp
next
  case (Release b)
  assume "pool_inv s" "allowed x (fst s)"
  then show ?thesis using Release pool_inv_release [of "fst s" "snd s" b L] by simp
next
  case ClearPool
  assume "pool_inv s"
  then show ?thesis using ClearPool pool_inv_clear [of "fst s" "snd s" L] by simp
next
  case (Write b i y)
  assume "pool_inv s" "allowed x (fst s)"
  then show ?thesis using Write pool_inv_write [of "fst s" "snd s" b L i y] by simp
qed

lemma pool_inv_run:
  "pool_inv s \<Longrightarrow> keeps_contract L xs s \<Longrightarrow> pool_inv (pool_run L xs s)"
proof (induction xs arbitrary: s)
  case Nil
  then show ?case by simp
next
  case (Cons x xs)
  then have "pool_inv (pool_step L x s)" by (simp add: pool_inv_step)
  then show ?case using Cons by simp
qed

lemma pool_inv_new: "pool_inv ([], m, new_BufferPool)"
  by (simp add: pool_inv_iff new_BufferPool_def)

lemma four_zeros: "replicate 4 (0::byte) = [0, 0, 0, 0]"
  by (simp add: numeral_eq_Suc)

lemma two_zeros: "replicate 2 (0::byte) = [0, 0]"
  by (simp add: numeral_eq_Suc)

lemma double_release_run:
  "pool_run example_max_length double_release example_session
    = ([example_buffer], [[42, 0, 0, 0]],
       \<lparr>bp_pool = [example_buffer], bp_hits = 1, bp_misses = 0\<rparr>)"
  by (simp add: double_release_def example_session_def example_memory_def example_buffer_def
        new_BufferPool_def release_def fill_zero_def acquire_def buffer_write_def mem_write_def
        POOL_SIZE_def MAX_POOL_ENTRIES_def Let_def four_zeros)

lemma example_requests_contract:
  "keeps_contract example_max_length example_requests example_session"
  by (simp add: example_requests_def example_session_def example_memory_def pooled_block_def
        pooled_slice_def new_BufferPool_def release_def acquire_def allocUnsafe_def slice0_def
        example_max_length_def POOL_SIZE_def MAX_POOL_ENTRIES_def Let_def)

lemma example_requests_pool:
  "fst (pool_run example_max_length example_requests example_session) = []
   \<and> bp_pool (snd (snd (pool_run example_max_length example_requests example_session)))
       = [pooled_slice]"
  by (simp add: example_requests_def example_session_def example_memory_def pooled_block_def
        pooled_slice_def new_BufferPool_def release_def acquire_def allocUnsafe_def slice0_def
        example_max_length_def POOL_SIZE_def MAX_POOL_ENTRIES_def Let_def)

lemma acquire_from_pool:
  assumes "pool_inv (held, w)" "from_pool sz (snd w)"
  shows "\<exists>buf. fst (acquire L junk sz w) = Inr buf
       \<and> valid_buffer (fst (snd (acquire L junk sz w))) buf
       \<and> all_zero (buffer_bytes (fst (snd (acquire L junk sz w))) buf)
       \<and> buffer_bytes (fst (snd (acquire L junk sz w))) buf = replicate (buf_length buf) 0"
proof -
  obtain m p where w: "w = (m, p)" by (cases w)
  from assms(2) obtain buf rest where small: "\<not> sz > int (POOL_SIZE * 2)"
    and ff: "first_fit sz (bp_pool (snd w)) = Some (buf, rest)"
    by (auto simp: from_pool_def)
  let ?r = "if int (buf_length buf) = sz then buf else slice0 buf sz"
  have mem: "buf \<in> set (bp_pool p)"
    using first_fit_Some [OF ff] by (simp add: w)
  then have v: "valid_buffer m buf" and z: "all_zero (buffer_bytes m buf)"
    using assms(1) by (simp_all add: w pool_inv_iff)
  have vr: "valid_buffer m ?r" using v by (simp add: valid_slice0)
  have zr: "all_zero (buffer_bytes m ?r)" using z by (simp add: bytes_slice0 all_zero_take)
  have rep: "buffer_bytes m ?r = replicate (buf_length ?r) 0"
    using vr zr by (metis all_zero_replicate buffer_bytes_length)
  have eq: "acquire L junk sz w =
       (Inr ?r, fst w, (snd w)\<lparr>bp_pool := rest, bp_hits := bp_hits (snd w) + 1\<rparr>)"
    by (rule acquire_hit [OF small ff])
  have "fst (acquire L junk sz w) = Inr ?r" "fst (snd (acquire L junk sz w)) = m"
    unfolding eq by (simp_all add: w)
  with vr zr rep show ?thesis by metis
qed

lemma acquire_from_pool_same:
  assumes "from_pool sz p" "bp_pool p = bp_pool p'"
  shows "fst (acquire L junk sz (m, p)) = fst (acquire L junk' sz (m', p'))"
proof -
  from assms(1) obtain buf rest where small: "\<not> sz > int (POOL_SIZE * 2)"
    and ff: "first_fit sz (bp_pool p) = Some (buf, rest)"
    by (auto simp: from_pool_def)
  have ff': "first_fit sz (bp_pool p') = Some (buf, rest)"
    using ff assms(2) by simp
  show ?thesis
    using acquire_hit [of sz "(m, p)" buf rest L junk]
      acquire_hit [of sz "(m', p')" buf rest L junk'] small ff ff'
    by simp
qed

section \<open>No byte of an earlier request in a pooled buffer\<close>

text \<open>
  C5, as the specification states it: every \<^verbatim>\<open>acquire\<close> that is satisfied from the idle
  list returns zeros, whatever the callers did before. The pool does not check that a
  buffer is released once. A caller releases its buffer twice, so the idle list holds it
  twice; the caller acquires 4 bytes and gets the buffer back, and writes 42 into it;
  the next \<^verbatim>\<open>acquire\<close> is served from the idle list with the same buffer, which reads
  42, 0, 0, 0.
\<close>

theorem C5_double_release_counterexample:
  "\<not> keeps_contract example_max_length double_release example_session
   \<and> from_pool 4 (snd (snd (pool_run example_max_length double_release example_session)))
   \<and> fst (acquire example_max_length example_junk 4
            (snd (pool_run example_max_length double_release example_session)))
       = Inr example_buffer
   \<and> buffer_bytes
        (fst (snd (acquire example_max_length example_junk 4
            (snd (pool_run example_max_length double_release example_session)))))
        example_buffer
       = [42, 0, 0, 0]
   \<and> \<not> all_zero [42, 0, 0, 0]"
proof -
  have "\<not> keeps_contract example_max_length double_release example_session"
    by (simp add: double_release_def example_session_def)
  moreover have "from_pool 4 (snd (snd (pool_run example_max_length double_release example_session)))"
    by (simp add: double_release_run from_pool_def example_buffer_def POOL_SIZE_def)
  moreover have "acquire example_max_length example_junk 4
            (snd (pool_run example_max_length double_release example_session))
       = (Inr example_buffer, [[42, 0, 0, 0]], \<lparr>bp_pool = [], bp_hits = 2, bp_misses = 0\<rparr>)"
    by (simp add: double_release_run acquire_def example_buffer_def POOL_SIZE_def)
  moreover have "buffer_bytes [[42, 0, 0, 0]] example_buffer = [42, 0, 0, 0]"
    by (simp add: buffer_bytes_def example_buffer_def)
  moreover have "\<not> all_zero [42, 0, 0, 0]"
    by (simp add: all_zero_def)
  ultimately show ?thesis by simp
qed

text \<open>
  C5, amended: when the callers keep the pool's contract, releasing only buffers that
  \<^verbatim>\<open>acquire\<close> gave them and that they have not released yet, and writing only through
  such buffers, then after every sequence of acquires, releases, writes and clears on a
  new pool, an \<^verbatim>\<open>acquire\<close> that is satisfied from the idle list returns a buffer whose
  bytes are all zero. Two such runs that reach the same idle list, whatever their
  memories held and whatever was written, get the same buffer with the same bytes. A
  \<^verbatim>\<open>release\<close> that puts a buffer on the idle list leaves it reading as zeros.
\<close>

theorem C5_pooled_buffer_reads_zero:
  assumes "keeps_contract L ops ([], m, new_BufferPool)"
    and "pool_run L ops ([], m, new_BufferPool) = (held, w)"
    and "from_pool sz (snd w)"
  shows "(\<exists>buf. fst (acquire L junk sz w) = Inr buf
            \<and> all_zero (buffer_bytes (fst (snd (acquire L junk sz w))) buf)
            \<and> buffer_bytes (fst (snd (acquire L junk sz w))) buf
                = replicate (buf_length buf) 0)
     \<and> (\<forall>ops' m' held' w' junk'.
           keeps_contract L ops' ([], m', new_BufferPool)
           \<and> pool_run L ops' ([], m', new_BufferPool) = (held', w')
           \<and> bp_pool (snd w') = bp_pool (snd w) \<longrightarrow>
           (\<exists>buf. fst (acquire L junk' sz w') = Inr buf \<and> fst (acquire L junk sz w) = Inr buf
              \<and> buffer_bytes (fst (snd (acquire L junk' sz w'))) buf
                  = buffer_bytes (fst (snd (acquire L junk sz w))) buf))
     \<and> (\<forall>b \<in> set held. buf_length b \<le> POOL_SIZE * 2
              \<and> length (bp_pool (snd w)) < MAX_POOL_ENTRIES \<longrightarrow>
           bp_pool (snd (release b w)) = bp_pool (snd w) @ [b]
           \<and> buffer_bytes (fst (release b w)) b = replicate (buf_length b) 0)"
proof -
  have inv: "pool_inv (held, w)"
    using pool_inv_run [OF pool_inv_new assms(1)] assms(2) by simp
  from acquire_from_pool [OF inv assms(3), of L junk]
  obtain buf where buf: "fst (acquire L junk sz w) = Inr buf"
    and z: "all_zero (buffer_bytes (fst (snd (acquire L junk sz w))) buf)"
    and rep: "buffer_bytes (fst (snd (acquire L junk sz w))) buf = replicate (buf_length buf) 0"
    by blast
  have two: "\<exists>buf. fst (acquire L junk' sz w') = Inr buf \<and> fst (acquire L junk sz w) = Inr buf
              \<and> buffer_bytes (fst (snd (acquire L junk' sz w'))) buf
                  = buffer_bytes (fst (snd (acquire L junk sz w))) buf"
    if c': "keeps_contract L ops' ([], m', new_BufferPool)"
      and r': "pool_run L ops' ([], m', new_BufferPool) = (held', w')"
      and same: "bp_pool (snd w') = bp_pool (snd w)" for ops' m' held' w' junk'
  proof -
    have inv': "pool_inv (held', w')"
      using pool_inv_run [OF pool_inv_new c'] r' by simp
    have fp': "from_pool sz (snd w')"
      using assms(3) same by (simp add: from_pool_def)
    from acquire_from_pool [OF inv' fp', of L junk']
    obtain buf' where buf': "fst (acquire L junk' sz w') = Inr buf'"
      and rep': "buffer_bytes (fst (snd (acquire L junk' sz w'))) buf'
                   = replicate (buf_length buf') 0"
      by blast
    have "fst (acquire L junk' sz w') = fst (acquire L junk sz w)"
      using acquire_from_pool_same [OF fp' same, of L junk' "fst w'" junk "fst w"] by simp
    then have "buf' = buf" using buf buf' by simp
    then show ?thesis using buf buf' rep rep' by simp
  qed
  have rel: "bp_pool (snd (release b w)) = bp_pool (snd w) @ [b]
           \<and> buffer_bytes (fst (release b w)) b = replicate (buf_length b) 0"
    if "b \<in> set held" "buf_length b \<le> POOL_SIZE * 2"
      "length (bp_pool (snd w)) < MAX_POOL_ENTRIES" for b
  proof -
    have vb: "valid_buffer (fst w) b"
      using inv that(1) by (cases w) (simp add: pool_inv_iff)
    have eq: "release b w = (fill_zero b (fst w), (snd w)\<lparr>bp_pool := bp_pool (snd w) @ [b]\<rparr>)"
      using that by (simp add: release_def Let_def)
    have "all_zero (buffer_bytes (fill_zero b (fst w)) b)"
      by (rule zeroed_fill_zero_self [OF vb])
    moreover have "valid_buffer (fill_zero b (fst w)) b"
      by (rule valid_fill_zero [OF vb vb])
    ultimately have "buffer_bytes (fill_zero b (fst w)) b = replicate (buf_length b) 0"
      by (metis all_zero_replicate buffer_bytes_length)
    then show ?thesis by (simp add: eq)
  qed
  from buf z rep two rel show ?thesis by blast
qed

theorem C5_pooled_buffer_reads_zero_witness:
  "keeps_contract example_max_length example_requests example_session
   \<and> from_pool 2 (snd (snd (pool_run example_max_length example_requests example_session)))
   \<and> fst (acquire example_max_length example_junk 2
            (snd (pool_run example_max_length example_requests example_session)))
       = Inr \<lparr>buf_block = 1, buf_offset = 0, buf_length = 2\<rparr>
   \<and> buffer_bytes
        (fst (snd (acquire example_max_length example_junk 2
            (snd (pool_run example_max_length example_requests example_session)))))
        \<lparr>buf_block = 1, buf_offset = 0, buf_length = 2\<rparr>
       = [0, 0]"
proof -
  let ?s = "pool_run example_max_length example_requests example_session"
  let ?b = "\<lparr>buf_block = 1, buf_offset = 0, buf_length = 2\<rparr>"
  have contract: "keeps_contract example_max_length example_requests ([], example_memory, new_BufferPool)"
    using example_requests_contract by (simp add: example_session_def)
  have run: "pool_run example_max_length example_requests ([], example_memory, new_BufferPool)
               = (fst ?s, snd ?s)"
    by (simp add: example_session_def)
  have pool: "bp_pool (snd (snd ?s)) = [pooled_slice]"
    using example_requests_pool by simp
  have fp: "from_pool 2 (snd (snd ?s))"
    by (simp add: from_pool_def pool pooled_slice_def POOL_SIZE_def)
  have res: "fst (acquire example_max_length example_junk 2 (snd ?s)) = Inr ?b"
    using pool by (simp add: acquire_def Let_def pooled_slice_def POOL_SIZE_def slice0_def)
  from C5_pooled_buffer_reads_zero [OF contract run fp, of example_junk]
  obtain buf where "fst (acquire example_max_length example_junk 2 (snd ?s)) = Inr buf"
    and "buffer_bytes (fst (snd (acquire example_max_length example_junk 2 (snd ?s)))) buf
           = replicate (buf_length buf) 0"
    by blast
  then have "buffer_bytes (fst (snd (acquire example_max_length example_junk 2 (snd ?s)))) ?b
           = replicate (buf_length ?b) 0"
    using res by auto
  then have "buffer_bytes (fst (snd (acquire example_max_length example_junk 2 (snd ?s)))) ?b
           = [0, 0]"
    by (simp add: two_zeros)
  with example_requests_contract fp res show ?thesis by blast
qed

section \<open>acquire returns a buffer that is long enough\<close>

text \<open>
  C6, as the specification states it: \<^verbatim>\<open>acquire\<close> succeeds for every requested size,
  the large-size bypass included. The bypass passes the size to \<^verbatim>\<open>Buffer.allocUnsafe\<close>,
  which throws above the platform's maximum buffer length: with a maximum of
  9007199254740991, \<^verbatim>\<open>acquire(9007199254740992)\<close> counts the miss and fails.
\<close>

theorem C6_acquire_above_platform_limit_counterexample:
  "fst (acquire example_max_length example_junk 9007199254740992 (example_memory, new_BufferPool))
     = Inl ERR_OUT_OF_RANGE
   \<and> bp_misses (snd (snd (acquire example_max_length example_junk 9007199254740992
                             (example_memory, new_BufferPool)))) = 1"
  by (simp add: acquire_def allocUnsafe_def example_max_length_def new_BufferPool_def
        POOL_SIZE_def Let_def)

text \<open>
  C6, amended: on a platform that allocates buffers up to a length \<open>L\<close> of at least
  twice \<^verbatim>\<open>POOL_SIZE\<close>, for every requested size up to \<open>L\<close>, \<^verbatim>\<open>acquire\<close> succeeds and
  returns a buffer at least as long as the request, in each of its three branches: a
  request above twice \<^verbatim>\<open>POOL_SIZE\<close> gets a new block of the requested size; a request
  that an idle buffer fits gets that buffer, trimmed to the requested size; any other
  request gets a new block of \<open>max size POOL_SIZE\<close> bytes. For a size above \<open>L\<close> the
  bypass counts the miss and the allocation throws.
\<close>

theorem C6_acquire_returns_long_enough:
  assumes "int (POOL_SIZE * 2) \<le> L"
  shows
    "(sz \<le> L \<longrightarrow>
        (\<exists>buf. fst (acquire L junk sz w) = Inr buf \<and> sz \<le> int (buf_length buf)
           \<and> ((\<forall>b \<in> set (bp_pool (snd w)). valid_buffer (fst w) b) \<longrightarrow>
                valid_buffer (fst (snd (acquire L junk sz w))) buf
                \<and> length (buffer_bytes (fst (snd (acquire L junk sz w))) buf) = buf_length buf)))
     \<and> (int (POOL_SIZE * 2) < sz \<and> sz \<le> L \<longrightarrow>
        fst (acquire L junk sz w)
          = Inr \<lparr>buf_block = length (fst w), buf_offset = 0, buf_length = nat sz\<rparr>
        \<and> bp_misses (snd (snd (acquire L junk sz w))) = bp_misses (snd w) + 1
        \<and> bp_pool (snd (snd (acquire L junk sz w))) = bp_pool (snd w))
     \<and> (from_pool sz (snd w) \<longrightarrow>
        bp_hits (snd (snd (acquire L junk sz w))) = bp_hits (snd w) + 1
        \<and> Suc (length (bp_pool (snd (snd (acquire L junk sz w))))) = length (bp_pool (snd w))
        \<and> fst (snd (acquire L junk sz w)) = fst w
        \<and> (0 \<le> sz \<longrightarrow>
             (\<exists>buf. fst (acquire L junk sz w) = Inr buf \<and> buf_length buf = nat sz)))
     \<and> (\<not> int (POOL_SIZE * 2) < sz \<and> \<not> from_pool sz (snd w) \<longrightarrow>
        fst (acquire L junk sz w)
          = Inr \<lparr>buf_block = length (fst w), buf_offset = 0,
                 buf_length = nat (max sz (int POOL_SIZE))\<rparr>
        \<and> bp_misses (snd (snd (acquire L junk sz w))) = bp_misses (snd w) + 1
        \<and> bp_pool (snd (snd (acquire L junk sz w))) = bp_pool (snd w))
     \<and> (L < sz \<longrightarrow>
        acquire L junk sz w
          = (Inl ERR_OUT_OF_RANGE, fst w, (snd w)\<lparr>bp_misses := bp_misses (snd w) + 1\<rparr>))"
proof (cases rule: acquire_cases [of sz w L junk])
  case (hit buf rest)
  let ?r = "if int (buf_length buf) = sz then buf else slice0 buf sz"
  have fp: "from_pool sz (snd w)" using hit(1,2) by (simp add: from_pool_def)
  have le: "sz \<le> L" using hit(1) assms by linarith
  have mem: "buf \<in> set (bp_pool (snd w))" and ge: "int (buf_length buf) \<ge> sz"
    and len: "length (bp_pool (snd w)) = Suc (length rest)"
    using first_fit_Some [OF hit(2)] by simp_all
  have long: "sz \<le> int (buf_length ?r)"
    using ge slice0_length [of sz buf] by auto
  have exact: "0 \<le> sz \<longrightarrow> buf_length ?r = nat sz"
    using ge by (auto simp: slice0_def Let_def)
  have valid: "(\<forall>b \<in> set (bp_pool (snd w)). valid_buffer (fst w) b) \<longrightarrow>
        valid_buffer (fst w) ?r \<and> length (buffer_bytes (fst w) ?r) = buf_length ?r"
    using mem by (auto simp: valid_slice0 buffer_bytes_length)
  show ?thesis
    unfolding hit(3) using hit(1) fp le long exact valid len by simp
next
  case (fresh n)
  let ?b = "\<lparr>buf_block = length (fst w), buf_offset = 0, buf_length = nat n\<rparr>"
  have v: "valid_buffer (fst w @ [map junk [0..<nat n]]) ?b"
    by (rule fresh_valid)
  have l: "length (buffer_bytes (fst w @ [map junk [0..<nat n]]) ?b) = buf_length ?b"
    by (rule buffer_bytes_length [OF v])
  have long: "sz \<le> int (nat n)" using fresh(2,4) by simp
  have le: "sz \<le> L" using fresh(3,4) by simp
  show ?thesis
    unfolding fresh(6) using fresh(1,5) v l long le by (auto simp: from_pool_def)
next
  case fail
  have big: "int (POOL_SIZE * 2) < sz"
    using fail(2) assms by (auto split: if_splits)
  then have gt: "L < sz" using fail(2) by simp
  show ?thesis
    unfolding fail(3) using fail(1) big gt by simp
qed

theorem C6_acquire_returns_long_enough_witness:
  "int (POOL_SIZE * 2) \<le> example_max_length
   \<and> from_pool 2 \<lparr>bp_pool = [example_buffer], bp_hits = 0, bp_misses = 0\<rparr>
   \<and> fst (acquire example_max_length example_junk 2
            (example_memory, \<lparr>bp_pool = [example_buffer], bp_hits = 0, bp_misses = 0\<rparr>))
       = Inr \<lparr>buf_block = 0, buf_offset = 0, buf_length = 2\<rparr>
   \<and> int (POOL_SIZE * 2) < 20000 \<and> (20000::int) \<le> example_max_length
   \<and> fst (acquire example_max_length example_junk 20000 (example_memory, new_BufferPool))
       = Inr \<lparr>buf_block = 1, buf_offset = 0, buf_length = 20000\<rparr>
   \<and> \<not> int (POOL_SIZE * 2) < 100 \<and> \<not> from_pool 100 new_BufferPool
   \<and> fst (acquire example_max_length example_junk 100 (example_memory, new_BufferPool))
       = Inr \<lparr>buf_block = 1, buf_offset = 0, buf_length = 8192\<rparr>
   \<and> example_max_length < 9007199254740992
   \<and> fst (acquire example_max_length example_junk 9007199254740992
            (example_memory, new_BufferPool)) = Inl ERR_OUT_OF_RANGE"
proof -
  let ?p = "\<lparr>bp_pool = [example_buffer], bp_hits = 0, bp_misses = 0\<rparr>"
  have lim: "int (POOL_SIZE * 2) \<le> example_max_length"
    by (simp add: POOL_SIZE_def example_max_length_def)
  note inst = C6_acquire_returns_long_enough [OF lim, of _ example_junk]
  have fp: "from_pool 2 ?p"
    by (simp add: from_pool_def example_buffer_def POOL_SIZE_def)
  have "\<exists>buf. fst (acquire example_max_length example_junk 2 (example_memory, ?p)) = Inr buf
          \<and> buf_length buf = nat 2"
    using inst [of 2 "(example_memory, ?p)"] fp by simp
  then have hit: "fst (acquire example_max_length example_junk 2 (example_memory, ?p))
       = Inr \<lparr>buf_block = 0, buf_offset = 0, buf_length = 2\<rparr>"
    by (simp add: acquire_def example_buffer_def POOL_SIZE_def slice0_def)
  have big: "int (POOL_SIZE * 2) < 20000" "(20000::int) \<le> example_max_length"
    by (simp_all add: POOL_SIZE_def example_max_length_def)
  have bypass: "fst (acquire example_max_length example_junk 20000 (example_memory, new_BufferPool))
       = Inr \<lparr>buf_block = 1, buf_offset = 0, buf_length = 20000\<rparr>"
    using inst [of 20000 "(example_memory, new_BufferPool)"] big
    by (simp add: example_memory_def)
  have small: "\<not> int (POOL_SIZE * 2) < 100" and nfp: "\<not> from_pool 100 new_BufferPool"
    by (simp_all add: POOL_SIZE_def from_pool_def new_BufferPool_def)
  have fresh: "fst (acquire example_max_length example_junk 100 (example_memory, new_BufferPool))
       = Inr \<lparr>buf_block = 1, buf_offset = 0, buf_length = 8192\<rparr>"
    using inst [of 100 "(example_memory, new_BufferPool)"] small nfp
    by (simp add: example_memory_def POOL_SIZE_def)
  have over: "example_max_length < 9007199254740992"
    by (simp add: example_max_length_def)
  have fails: "fst (acquire example_max_length example_junk 9007199254740992
            (example_memory, new_BufferPool)) = Inl ERR_OUT_OF_RANGE"
    using inst [of 9007199254740992 "(example_memory, new_BufferPool)"] over
    by simp
  from lim fp hit big bypass small nfp fresh over fails show ?thesis by blast
qed

end
